theory Spec2Isabelle
  imports Main
begin

section \<open>Python values, exceptions and the environment\<close>

text \<open>
  The module \<^verbatim>\<open>utils/builder.py\<close> is a chain of small functions over JSON data,
  Pillow images and an openpyxl worksheet. Python strings are modelled as HOL strings
  holding their UTF-8 bytes (a byte below 128 is an ASCII character). An exception is a
  value of \<open>py_error\<close>, and a function that may raise returns \<open>py_error + 'a\<close>.
  Everything read from the outside (image files, directory listings, JSON documents,
  workbooks, the Unicode decomposition table) is a parameter of the model, and so is what
  only Pillow and the machine decide (whether an image of a size can be allocated,
  whether an image can be written under a path). \<open>SaveError\<close> stands for whatever
  \<^verbatim>\<open>Image.save\<close> raises (a ValueError or an OSError, by the cause).
\<close>

datatype py_error =
    KeyError string
  | ValueError
  | TypeError
  | IOError string
  | OverflowError
  | MemoryError
  | SaveError string

text \<open>
  JSON scalars as \<^verbatim>\<open>json.load\<close> returns them: \<open>JNull\<close> is Python's \<^verbatim>\<open>None\<close>. Numbers
  are kept as integers: the code copies them and tests them for truth, nothing more.
\<close>

datatype json = JNull | JStr string | JNum int

text \<open>A JSON object of scalars is a finite map from member names to values.\<close>

type_synonym row = "string \<rightharpoonup> json"

text \<open>
  The extracted document: its scalar members, and the member \<^verbatim>\<open>components\<close> (a list of
  objects), \<open>None\<close> when the key is absent.
\<close>

record report =
  members :: "string \<rightharpoonup> json"
  components :: "row list option"

text \<open>\<^verbatim>\<open>d[key]\<close> raises KeyError on an absent key; \<^verbatim>\<open>d.get(key, default)\<close> does not.\<close>

definition subscript :: "(string \<rightharpoonup> 'v) \<Rightarrow> string \<Rightarrow> py_error + 'v" where
  "subscript d key = (case d key of None \<Rightarrow> Inl (KeyError key) | Some v \<Rightarrow> Inr v)"

definition dict_get :: "(string \<rightharpoonup> 'v) \<Rightarrow> string \<Rightarrow> 'v \<Rightarrow> 'v" where
  "dict_get d key dflt = (case d key of None \<Rightarrow> dflt | Some v \<Rightarrow> v)"

text \<open>\<^verbatim>\<open>read_json(json_path)\<close>: the documents on disk are the map \<open>json_files\<close>.\<close>

definition read_json :: "(string \<rightharpoonup> report) \<Rightarrow> string \<Rightarrow> py_error + report" where
  "read_json json_files json_path =
     (case json_files json_path of None \<Rightarrow> Inl (IOError json_path) | Some data \<Rightarrow> Inr data)"

text \<open>
  A Python dict keeps its keys in insertion order; storing under a key that is already
  there replaces the value and leaves the key where it is.
\<close>

fun dict_set :: "('k \<times> 'v) list \<Rightarrow> 'k \<Rightarrow> 'v \<Rightarrow> ('k \<times> 'v) list" where
  "dict_set [] k v = [(k, v)]"
| "dict_set ((k', v') # d) k v =
     (if k' = k then (k', v) # d else (k', v') # dict_set d k v)"

text \<open>A dict comprehension \<^verbatim>\<open>{k: v for k, v in pairs}\<close> stores the pairs one after another.\<close>

definition dict_of_pairs :: "('k \<times> 'v) list \<Rightarrow> ('k \<times> 'v) list" where
  "dict_of_pairs ps = fold (\<lambda>(k, v) d. dict_set d k v) ps []"

section \<open>slugify\<close>

text \<open>
  \<^verbatim>\<open>unicodedata.normalize("NFKD", text)\<close> is the parameter \<open>nfkd\<close> (the Unicode tables are
  not part of the module). \<^verbatim>\<open>.encode("ascii", "ignore").decode()\<close> drops every non-ASCII
  code point, that is every byte from 128 on. After it the text is ASCII, where the
  regular expression classes are: \<^verbatim>\<open>\w\<close> the letters, the digits and the underscore;
  \<^verbatim>\<open>\s\<close> the characters 9 to 13 and 28 to 32 (what \<^verbatim>\<open>str.isspace\<close> accepts, and what
  \<^verbatim>\<open>strip()\<close> removes).
\<close>

definition is_ascii :: "char \<Rightarrow> bool" where
  "is_ascii c = ((of_char c :: nat) < 128)"

definition is_upper :: "char \<Rightarrow> bool" where
  "is_upper c = (65 \<le> (of_char c :: nat) \<and> (of_char c :: nat) \<le> 90)"

definition is_lower :: "char \<Rightarrow> bool" where
  "is_lower c = (97 \<le> (of_char c :: nat) \<and> (of_char c :: nat) \<le> 122)"

definition is_digit :: "char \<Rightarrow> bool" where
  "is_digit c = (48 \<le> (of_char c :: nat) \<and> (of_char c :: nat) \<le> 57)"

definition is_word :: "char \<Rightarrow> bool" where
  "is_word c = (is_upper c \<or> is_lower c \<or> is_digit c \<or> c = CHR ''_'')"

definition is_space :: "char \<Rightarrow> bool" where
  "is_space c = ((9 \<le> (of_char c :: nat) \<and> (of_char c :: nat) \<le> 13) \<or>
                 (28 \<le> (of_char c :: nat) \<and> (of_char c :: nat) \<le> 32))"

definition ascii_ignore :: "string \<Rightarrow> string" where
  "ascii_ignore text = filter is_ascii text"

definition lower_char :: "char \<Rightarrow> char" where
  "lower_char c = (if is_upper c then char_of ((of_char c :: nat) + 32) else c)"

definition str_lower :: "string \<Rightarrow> string" where
  "str_lower text = map lower_char text"

definition str_strip :: "string \<Rightarrow> string" where
  "str_strip text = rev (dropWhile is_space (rev (dropWhile is_space text)))"

text \<open>\<^verbatim>\<open>re.sub(r"[^\w\s-]", "", text)\<close>: every character outside the class is deleted.\<close>

definition drop_other :: "string \<Rightarrow> string" where
  "drop_other text = filter (\<lambda>c. is_word c \<or> is_space c \<or> c = CHR ''-'') text"

text \<open>
  \<^verbatim>\<open>re.sub(r"[-\s]+", "_", text)\<close>: scanning from the left, every maximal run of hyphens
  and whitespace is replaced by one underscore. \<open>in_run\<close> says that the character
  before belongs to a run already replaced.
\<close>

definition is_sep :: "char \<Rightarrow> bool" where
  "is_sep c = (c = CHR ''-'' \<or> is_space c)"

fun sub_runs :: "bool \<Rightarrow> string \<Rightarrow> string" where
  "sub_runs in_run [] = []"
| "sub_runs in_run (c # cs) =
     (if is_sep c then (if in_run then sub_runs True cs else CHR ''_'' # sub_runs True cs)
      else c # sub_runs False cs)"

definition slugify :: "(string \<Rightarrow> string) \<Rightarrow> string \<Rightarrow> string" where
  "slugify nfkd text =
     (let text1 = ascii_ignore (nfkd text);
          text2 = str_lower (str_strip (drop_other text1))
      in sub_runs False text2)"

section \<open>Component Mapper: make_component_dict\<close>

text \<open>
  The generator yields \<^verbatim>\<open>(row["item_id"], row["mapped_name"])\<close> for the rows that pass
  \<^verbatim>\<open>keep_none or row["item_id"] is not None\<close>. The test reads \<^verbatim>\<open>row["item_id"]\<close> only
  when \<open>keep_none\<close> is false; the first absent key raises and ends the comprehension.
\<close>

fun pairs :: "bool \<Rightarrow> row list \<Rightarrow> py_error + (json \<times> json) list" where
  "pairs keep_none [] = Inr []"
| "pairs keep_none (r # rest) =
     (case (if keep_none then Inr True
            else (case subscript r ''item_id'' of Inl e \<Rightarrow> Inl e | Inr i \<Rightarrow> Inr (i \<noteq> JNull))) of
        Inl e \<Rightarrow> Inl e
      | Inr False \<Rightarrow> pairs keep_none rest
      | Inr True \<Rightarrow>
          (case subscript r ''item_id'' of
             Inl e \<Rightarrow> Inl e
           | Inr item \<Rightarrow>
               (case subscript r ''mapped_name'' of
                  Inl e \<Rightarrow> Inl e
                | Inr mapped \<Rightarrow>
                    (case pairs keep_none rest of
                       Inl e \<Rightarrow> Inl e
                     | Inr ps \<Rightarrow> Inr ((item, mapped) # ps)))))"

definition make_component_dict ::
  "(string \<rightharpoonup> report) \<Rightarrow> string \<Rightarrow> bool \<Rightarrow> py_error + (json \<times> json) list" where
  "make_component_dict json_files json_path keep_none =
     (case read_json json_files json_path of
        Inl e \<Rightarrow> Inl e
      | Inr data \<Rightarrow>
          (case components data of
             None \<Rightarrow> Inl (KeyError ''components'')
           | Some rows \<Rightarrow>
               (case pairs keep_none rows of
                  Inl e \<Rightarrow> Inl e
                | Inr ps \<Rightarrow> Inr (dict_of_pairs ps))))"

text \<open>The default \<^verbatim>\<open>keep_none=True\<close> of the signature.\<close>

definition make_component_dict_default ::
  "(string \<rightharpoonup> report) \<Rightarrow> string \<Rightarrow> py_error + (json \<times> json) list" where
  "make_component_dict_default json_files json_path =
     make_component_dict json_files json_path True"

section \<open>Image Registry: official_component_dict\<close>

text \<open>
  The POSIX path functions of \<^verbatim>\<open>os.path\<close> the registry calls, on a separator \<^verbatim>\<open>/\<close>.
  \<open>after_last_sep\<close> is \<^verbatim>\<open>p[p.rfind("/") + 1:]\<close> and \<open>upto_last_sep\<close> is
  \<^verbatim>\<open>p[:p.rfind("/") + 1]\<close>.
\<close>

definition after_last_sep :: "string \<Rightarrow> string" where
  "after_last_sep p = rev (takeWhile (\<lambda>c. c \<noteq> CHR ''/'') (rev p))"

definition upto_last_sep :: "string \<Rightarrow> string" where
  "upto_last_sep p = rev (dropWhile (\<lambda>c. c \<noteq> CHR ''/'') (rev p))"

definition os_path_join :: "string \<Rightarrow> string \<Rightarrow> string" where
  "os_path_join a b =
     (if b \<noteq> [] \<and> hd b = CHR ''/'' then b
      else if a = [] \<or> last a = CHR ''/'' then a @ b
      else a @ ''/'' @ b)"

definition os_path_split :: "string \<Rightarrow> string \<times> string" where
  "os_path_split p =
     (let head = upto_last_sep p; tail = after_last_sep p
      in if head \<noteq> [] \<and> \<not> list_all (\<lambda>c. c = CHR ''/'') head
         then (rev (dropWhile (\<lambda>c. c = CHR ''/'') (rev head)), tail)
         else (head, tail))"

definition os_path_basename :: "string \<Rightarrow> string" where
  "os_path_basename p = after_last_sep p"

text \<open>
  \<^verbatim>\<open>os.path.splitext(p)\<close>: the extension starts at the last dot of the last component,
  unless only dots stand before it there. \<open>splitext_root\<close> is element 0 of the pair.
\<close>

definition splitext_root :: "string \<Rightarrow> string" where
  "splitext_root p =
     (let base = after_last_sep p;
          before_dot = rev (drop 1 (dropWhile (\<lambda>c. c \<noteq> CHR ''.'') (rev base)))
      in if CHR ''.'' \<in> set base \<and> \<not> list_all (\<lambda>c. c = CHR ''.'') before_dot
         then upto_last_sep p @ before_dot
         else p)"

text \<open>
  \<^verbatim>\<open>glob.glob(pathname)\<close> for a pathname whose last component is the pattern \<^verbatim>\<open>*\<close> and
  whose directory part is free of the metacharacters of glob: the names of the directory
  in the order the system lists them (\<open>listdir\<close>, \<open>None\<close> when the directory cannot be
  listed, which glob takes as empty), without the names that start with a dot, each
  joined to the directory part. Every other pathname is outside the model (\<open>None\<close>).
\<close>

definition has_magic :: "string \<Rightarrow> bool" where
  "has_magic s = (\<exists>c \<in> set s. c = CHR ''*'' \<or> c = CHR ''?'' \<or> c = CHR ''['')"

definition ishidden :: "string \<Rightarrow> bool" where
  "ishidden path = (path \<noteq> [] \<and> hd path = CHR ''.'')"

definition glob1 :: "(string \<Rightarrow> string list option) \<Rightarrow> string \<Rightarrow> string list" where
  "glob1 listdir dirname =
     (let names = (case listdir (if dirname = [] then ''.'' else dirname) of
                     None \<Rightarrow> [] | Some ns \<Rightarrow> ns)
      in filter (\<lambda>x. \<not> ishidden x) names)"

definition glob_glob :: "(string \<Rightarrow> string list option) \<Rightarrow> string \<Rightarrow> string list option" where
  "glob_glob listdir pathname =
     (let (dirname, basename) = os_path_split pathname
      in if basename \<noteq> ''*'' \<or> has_magic dirname then None
         else Some (map (os_path_join dirname) (glob1 listdir dirname)))"

definition official_component_dict ::
  "(string \<Rightarrow> string list option) \<Rightarrow> string \<Rightarrow> (string \<times> string) list option" where
  "official_component_dict listdir DHD_folder =
     (case glob_glob listdir (os_path_join DHD_folder ''*'') of
        None \<Rightarrow> None
      | Some fps \<Rightarrow>
          Some (dict_of_pairs (map (\<lambda>fp. (splitext_root (os_path_basename fp), fp)) fps)))"

section \<open>Stack Compositor: stack_dhd\<close>

text \<open>
  A Pillow image: its size, its mode, and the picture it holds as an uninterpreted
  payload. \<^verbatim>\<open>convert("RGBA")\<close> changes the mode and keeps size and picture.
\<close>

record pil_image =
  width :: nat
  height :: nat
  mode :: string
  picture :: "nat list"

definition convert_rgba :: "pil_image \<Rightarrow> pil_image" where
  "convert_rgba img = img\<lparr>mode := ''RGBA''\<rparr>"

text \<open>
  A value of the mapping is a path (a \<^verbatim>\<open>str\<close>, opened with \<^verbatim>\<open>Image.open\<close>) or an image in
  memory (copied). \<open>disk\<close> holds the image files that can be opened; opening any other
  path raises.
\<close>

datatype src = Path string | InMemory pil_image

definition load_image :: "(string \<rightharpoonup> pil_image) \<Rightarrow> src \<Rightarrow> py_error + pil_image" where
  "load_image disk s =
     (case s of
        Path p \<Rightarrow> (case disk p of None \<Rightarrow> Inl (IOError p) | Some img \<Rightarrow> Inr img)
      | InMemory img \<Rightarrow> Inr img)"

text \<open>
  The canvas: the size \<^verbatim>\<open>Image.new\<close> was given, and the \<^verbatim>\<open>alpha_composite\<close> calls made on
  it so far, in order, each with its image and destination \<open>(x, y)\<close>. Its pixels are
  a function of these. \<^verbatim>\<open>Image.new\<close> refuses a negative size (ValueError) and a size
  that does not fit a C int (OverflowError); below that, whether the memory can be had is
  the parameter \<open>can_allocate\<close> (MemoryError otherwise).
\<close>

record canvas =
  cwidth :: int
  cheight :: int
  layers :: "(pil_image \<times> int \<times> int) list"

definition image_new :: "(int \<times> int \<Rightarrow> bool) \<Rightarrow> int \<times> int \<Rightarrow> py_error + canvas" where
  "image_new can_allocate sz =
     (if fst sz < 0 \<or> snd sz < 0 then Inl ValueError
      else if 2 ^ 31 \<le> fst sz \<or> 2 ^ 31 \<le> snd sz then Inl OverflowError
      else if \<not> can_allocate sz then Inl MemoryError
      else Inr \<lparr>cwidth = fst sz, cheight = snd sz, layers = []\<rparr>)"

text \<open>
  \<^verbatim>\<open>canvas.save(path)\<close>: an empty image (a side of 0 pixels) is refused; otherwise the file
  is written when \<open>can_write\<close> holds of the path and the canvas (an extension Pillow
  knows, of a format that takes RGBA and the size, in a directory that can be written),
  and nothing is written when not. \<open>saved\<close> maps a path to the canvas saved there.
\<close>

definition canvas_save ::
  "(string \<Rightarrow> canvas \<Rightarrow> bool) \<Rightarrow> canvas \<Rightarrow> string \<Rightarrow> (string \<rightharpoonup> canvas) \<Rightarrow>
   py_error option \<times> (string \<rightharpoonup> canvas)" where
  "canvas_save can_write cv path saved =
     (if cwidth cv = 0 \<or> cheight cv = 0 then (Some (SaveError path), saved)
      else if \<not> can_write path cv then (Some (SaveError path), saved)
      else (None, saved(path \<mapsto> cv)))"

definition alpha_composite :: "canvas \<Rightarrow> pil_image \<Rightarrow> int \<times> int \<Rightarrow> canvas" where
  "alpha_composite cv img dest = cv\<lparr>layers := layers cv @ [(img, fst dest, snd dest)]\<rparr>"

text \<open>The units pass 1 records: \<^verbatim>\<open>('gap', gap_pixels)\<close> and \<^verbatim>\<open>('img', img)\<close>.\<close>

datatype item = Gap int | Img pil_image

record pass1_state =
  items :: "item list"
  max_w :: int
  total_h :: int

text \<open>Pass 1: the loop over \<open>order\<close>; an entry \<open>None\<close> is a spacer.\<close>

fun pass1 ::
  "(string \<rightharpoonup> pil_image) \<Rightarrow> (string \<rightharpoonup> src) \<Rightarrow> int \<Rightarrow> bool \<Rightarrow> string option list \<Rightarrow>
   pass1_state \<Rightarrow> py_error + pass1_state" where
  "pass1 disk mapping gap_pixels skip_missing [] st = Inr st"
| "pass1 disk mapping gap_pixels skip_missing (None # rest) st =
     pass1 disk mapping gap_pixels skip_missing rest
       (st\<lparr>items := items st @ [Gap gap_pixels], total_h := total_h st + gap_pixels\<rparr>)"
| "pass1 disk mapping gap_pixels skip_missing (Some label # rest) st =
     (case mapping label of
        None \<Rightarrow>
          (if skip_missing then pass1 disk mapping gap_pixels skip_missing rest st
           else Inl (KeyError label))
      | Some s \<Rightarrow>
          (case load_image disk s of
             Inl e \<Rightarrow> Inl e
           | Inr opened \<Rightarrow>
               (let img = convert_rgba opened
                in pass1 disk mapping gap_pixels skip_missing rest
                     (st\<lparr>items := items st @ [Img img],
                         max_w := max (max_w st) (int (width img)),
                         total_h := total_h st + int (height img)\<rparr>))))"

text \<open>Pass 2: the loop over the recorded units, with the cursor \<open>y\<close>.\<close>

fun pass2 :: "int \<Rightarrow> item list \<Rightarrow> int \<Rightarrow> canvas \<Rightarrow> canvas" where
  "pass2 mw [] y cv = cv"
| "pass2 mw (Gap obj # rest) y cv = pass2 mw rest (y + obj) cv"
| "pass2 mw (Img img # rest) y cv =
     (let x = (mw - int (width img)) div 2
      in pass2 mw rest (y + int (height img)) (alpha_composite cv img (x, y)))"

text \<open>The canvas as it stands before \<^verbatim>\<open>canvas.save\<close>, or the exception raised on the way.\<close>

definition stack_canvas ::
  "(string \<rightharpoonup> pil_image) \<Rightarrow> (int \<times> int \<Rightarrow> bool) \<Rightarrow> string option list \<Rightarrow> (string \<rightharpoonup> src) \<Rightarrow>
   int \<Rightarrow> bool \<Rightarrow> py_error + canvas" where
  "stack_canvas disk can_allocate order mapping gap_pixels skip_missing =
     (case pass1 disk mapping gap_pixels skip_missing order
             \<lparr>items = [], max_w = 1, total_h = 0\<rparr> of
        Inl e \<Rightarrow> Inl e
      | Inr st \<Rightarrow>
          (case image_new can_allocate (max_w st, total_h st) of
             Inl e \<Rightarrow> Inl e
           | Inr cv \<Rightarrow> Inr (pass2 (max_w st) (items st) 0 cv)))"

text \<open>
  \<open>stack_dhd\<close> returns nothing: its effect is the file it saves. The first component of
  the result is the exception raised, if any; the second the saved files afterwards. The
  calls of \<^verbatim>\<open>alpha_composite\<close> are recorded with their arguments: for a gap that is not
  negative, the positions pass 2 computes put every image inside the canvas.
\<close>

definition stack_dhd ::
  "(string \<rightharpoonup> pil_image) \<Rightarrow> (int \<times> int \<Rightarrow> bool) \<Rightarrow> (string \<Rightarrow> canvas \<Rightarrow> bool) \<Rightarrow> string option list \<Rightarrow>
   (string \<rightharpoonup> src) \<Rightarrow> string \<Rightarrow> int \<Rightarrow> bool \<Rightarrow>
   (string \<rightharpoonup> canvas) \<Rightarrow> py_error option \<times> (string \<rightharpoonup> canvas)" where
  "stack_dhd disk can_allocate can_write order mapping dhd_image_output_path gap_pixels
     skip_missing saved =
     (case stack_canvas disk can_allocate order mapping gap_pixels skip_missing of
        Inl e \<Rightarrow> (Some e, saved)
      | Inr cv \<Rightarrow> canvas_save can_write cv dhd_image_output_path saved)"

text \<open>
  The keyword defaults of the signature,
  \<^verbatim>\<open>dhd_image_output_path='stack.png', gap_pixels=6, skip_missing=True\<close>: an argument the
  caller leaves out is \<open>None\<close> here.
\<close>

definition stack_dhd_kw ::
  "(string \<rightharpoonup> pil_image) \<Rightarrow> (int \<times> int \<Rightarrow> bool) \<Rightarrow> (string \<Rightarrow> canvas \<Rightarrow> bool) \<Rightarrow> string option list \<Rightarrow>
   (string \<rightharpoonup> src) \<Rightarrow> string option \<Rightarrow> int option \<Rightarrow> bool option \<Rightarrow>
   (string \<rightharpoonup> canvas) \<Rightarrow> py_error option \<times> (string \<rightharpoonup> canvas)" where
  "stack_dhd_kw disk can_allocate can_write order mapping path_arg gap_arg skip_arg saved =
     stack_dhd disk can_allocate can_write order mapping
       (case path_arg of None \<Rightarrow> ''stack.png'' | Some p \<Rightarrow> p)
       (case gap_arg of None \<Rightarrow> 6 | Some g \<Rightarrow> g)
       (case skip_arg of None \<Rightarrow> True | Some b \<Rightarrow> b)
       saved"

text \<open>
  What the properties of the compositor speak of: the images an order resolves to (every
  name that is in the mapping and whose source loads, converted), and its spacers.
\<close>

definition resolve :: "(string \<rightharpoonup> pil_image) \<Rightarrow> (string \<rightharpoonup> src) \<Rightarrow> string option \<Rightarrow> pil_image option" where
  "resolve disk mapping entry =
     (case entry of
        None \<Rightarrow> None
      | Some label \<Rightarrow>
          (case mapping label of
             None \<Rightarrow> None
           | Some s \<Rightarrow> (case load_image disk s of Inl e \<Rightarrow> None | Inr img \<Rightarrow> Some (convert_rgba img))))"

definition resolved_images ::
  "(string \<rightharpoonup> pil_image) \<Rightarrow> (string \<rightharpoonup> src) \<Rightarrow> string option list \<Rightarrow> pil_image list" where
  "resolved_images disk mapping order = List.map_filter (resolve disk mapping) order"

definition spacers :: "string option list \<Rightarrow> nat" where
  "spacers order = length (filter (\<lambda>entry. entry = None) order)"

text \<open>
  An entry is present when it is a spacer or a key of the mapping; it loads when it is a
  spacer, or not a key, or a key whose source can be opened.
\<close>

definition present :: "(string \<rightharpoonup> src) \<Rightarrow> string option \<Rightarrow> bool" where
  "present mapping entry =
     (case entry of
        None \<Rightarrow> True
      | Some label \<Rightarrow> (case mapping label of None \<Rightarrow> False | Some s \<Rightarrow> True))"

definition loads :: "(string \<rightharpoonup> pil_image) \<Rightarrow> (string \<rightharpoonup> src) \<Rightarrow> string option \<Rightarrow> bool" where
  "loads disk mapping entry =
     (case entry of
        None \<Rightarrow> True
      | Some label \<Rightarrow>
          (case mapping label of
             None \<Rightarrow> True
           | Some s \<Rightarrow> (case load_image disk s of Inl e \<Rightarrow> False | Inr img \<Rightarrow> True)))"

definition all_present :: "(string \<rightharpoonup> src) \<Rightarrow> string option list \<Rightarrow> bool" where
  "all_present mapping order = list_all (present mapping) order"

definition all_load :: "(string \<rightharpoonup> pil_image) \<Rightarrow> (string \<rightharpoonup> src) \<Rightarrow> string option list \<Rightarrow> bool" where
  "all_load disk mapping order = list_all (loads disk mapping) order"

text \<open>The first name of the order that is not a key of the mapping, and the entries before it.\<close>

fun first_missing :: "(string \<rightharpoonup> src) \<Rightarrow> string option list \<Rightarrow> string option" where
  "first_missing mapping [] = None"
| "first_missing mapping (None # rest) = first_missing mapping rest"
| "first_missing mapping (Some label # rest) =
     (case mapping label of None \<Rightarrow> Some label | Some s \<Rightarrow> first_missing mapping rest)"

text \<open>The exception of the first source of an order that cannot be opened, if any.\<close>

fun first_load_error ::
  "(string \<rightharpoonup> pil_image) \<Rightarrow> (string \<rightharpoonup> src) \<Rightarrow> string option list \<Rightarrow> py_error option" where
  "first_load_error disk mapping [] = None"
| "first_load_error disk mapping (None # rest) = first_load_error disk mapping rest"
| "first_load_error disk mapping (Some label # rest) =
     (case mapping label of
        None \<Rightarrow> first_load_error disk mapping rest
      | Some s \<Rightarrow>
          (case load_image disk s of
             Inl e \<Rightarrow> Some e
           | Inr img \<Rightarrow> first_load_error disk mapping rest))"

definition before_first_missing :: "(string \<rightharpoonup> src) \<Rightarrow> string option list \<Rightarrow> string option list" where
  "before_first_missing mapping order = takeWhile (present mapping) order"


text \<open>
  What the properties of the mapper speak of: the keys of a list in the order of their
  first occurrence; a row that has both members the mapper reads; the rows \<open>keep_none\<close>
  retains; and the pair a row contributes.
\<close>

definition first_occurrences :: "'a list \<Rightarrow> 'a list" where
  "first_occurrences ks = rev (remdups (rev ks))"

definition has_keys :: "row \<Rightarrow> bool" where
  "has_keys r = (case r ''item_id'' of None \<Rightarrow> False | Some i \<Rightarrow>
                  (case r ''mapped_name'' of None \<Rightarrow> False | Some m \<Rightarrow> True))"

definition kept :: "bool \<Rightarrow> row list \<Rightarrow> row list" where
  "kept keep_none rows = filter (\<lambda>r. keep_none \<or> r ''item_id'' \<noteq> Some JNull) rows"

definition pair_of :: "row \<Rightarrow> json \<times> json" where
  "pair_of r = (dict_get r ''item_id'' JNull, dict_get r ''mapped_name'' JNull)"

text \<open>The characters a slug is made of: lower-case letters, digits and the underscore.\<close>

definition is_slug_char :: "char \<Rightarrow> bool" where
  "is_slug_char c = (is_lower c \<or> is_digit c \<or> c = CHR ''_'')"

text \<open>
  What the properties of the registry speak of: the directory part glob works on (the
  folder without trailing separators); the names glob yields for it; the entry a name
  contributes; and what every name of a directory listing is: not empty and free of the
  separator.
\<close>

definition dirname_of :: "string \<Rightarrow> string" where
  "dirname_of DHD_folder = fst (os_path_split (os_path_join DHD_folder ''*''))"

definition visible :: "(string \<Rightarrow> string list option) \<Rightarrow> string \<Rightarrow> string list" where
  "visible listdir DHD_folder = glob1 listdir (dirname_of DHD_folder)"

definition entry_of :: "string \<Rightarrow> string \<Rightarrow> string \<times> string" where
  "entry_of DHD_folder name = (splitext_root name, os_path_join (dirname_of DHD_folder) name)"


definition listed_names :: "string list \<Rightarrow> bool" where
  "listed_names names = list_all (\<lambda>n. n \<noteq> [] \<and> CHR ''/'' \<notin> set n) names"

section \<open>Spreadsheet Filler: create_dhd_excel\<close>

















text \<open>
  What the properties of \<open>slugify\<close> speak of. A text of word characters and separators
  (hyphens and whitespace) is a sequence of tokens, words and runs in turn, each not
  empty; a word is rendered in lower case and a run as one underscore. \<open>kept_char\<close> are
  the characters that survive the encoding to ASCII and the first substitution.
\<close>

datatype token = Word string | Run string

fun flatten :: "token list \<Rightarrow> string" where
  "flatten [] = []"
| "flatten (Word w # ts) = w @ flatten ts"
| "flatten (Run r # ts) = r @ flatten ts"

fun alternating :: "token list \<Rightarrow> bool" where
  "alternating [] = True"
| "alternating [Word w] = (w \<noteq> [] \<and> list_all is_word w)"
| "alternating [Run r] = (r \<noteq> [] \<and> list_all is_sep r)"
| "alternating (Word w # Run r # ts) = (w \<noteq> [] \<and> list_all is_word w \<and> alternating (Run r # ts))"
| "alternating (Run r # Word w # ts) = (r \<noteq> [] \<and> list_all is_sep r \<and> alternating (Word w # ts))"
| "alternating (Word w # Word w' # ts) = False"
| "alternating (Run r # Run r' # ts) = False"

fun render :: "token \<Rightarrow> string" where
  "render (Word w) = str_lower w"
| "render (Run r) = ''_''"

definition kept_char :: "char \<Rightarrow> bool" where
  "kept_char c = (is_ascii c \<and> (is_word c \<or> is_space c \<or> c = CHR ''-''))"


section \<open>The compositor's two passes\<close>

text \<open>
  The state pass 1 ends in, for any state it starts from: the total height, the maximum
  width, and when the pass ends without an exception.
\<close>

lemma resolved_images_Nil: "resolved_images disk mapping [] = []"
  by (simp add: resolved_images_def map_filter_simps)

lemma resolved_images_Cons:
  "resolved_images disk mapping (entry # rest) =
     (case resolve disk mapping entry of
        None \<Rightarrow> resolved_images disk mapping rest
      | Some img \<Rightarrow> img # resolved_images disk mapping rest)"
  by (simp add: resolved_images_def map_filter_simps split: option.splits)

lemma spacers_Nil: "spacers [] = 0"
  by (simp add: spacers_def)

lemma spacers_Cons: "spacers (entry # rest) = (if entry = None then Suc (spacers rest) else spacers rest)"
  by (simp add: spacers_def)

lemma Max_insert_max:
  fixes a b :: int
  assumes "finite S"
  shows "Max (insert (max a b) S) = Max (insert a (insert b S))"
proof (cases "S = {}")
  case True
  then show ?thesis by simp
next
  case False
  with assms show ?thesis by (simp add: max.assoc)
qed

lemma pass1_total_h:
  "pass1 disk mapping g skip order st = Inr st' \<Longrightarrow>
   total_h st' = total_h st + (\<Sum>img \<leftarrow> resolved_images disk mapping order. int (height img))
                 + g * int (spacers order)"
  by (induction disk mapping g skip order st rule: pass1.induct)
     (auto simp: resolved_images_Nil resolved_images_Cons spacers_Nil spacers_Cons resolve_def
                 Let_def algebra_simps split: option.splits sum.splits if_splits)

lemma pass1_max_w:
  "pass1 disk mapping g skip order st = Inr st' \<Longrightarrow>
   max_w st' = Max (insert (max_w st) (set (map (\<lambda>img. int (width img)) (resolved_images disk mapping order))))"
  by (induction disk mapping g skip order st rule: pass1.induct)
     (auto simp: resolved_images_Nil resolved_images_Cons resolve_def Max_insert_max
                 Let_def split: option.splits sum.splits if_splits)

lemma pass1_append:
  "pass1 disk mapping g skip (xs @ ys) st =
     (case pass1 disk mapping g skip xs st of
        Inl e \<Rightarrow> Inl e
      | Inr st' \<Rightarrow> pass1 disk mapping g skip ys st')"
  by (induction disk mapping g skip xs st rule: pass1.induct)
     (auto simp: Let_def split: option.splits sum.splits)

lemma pass1_succeeds:
  "skip \<or> all_present mapping order \<Longrightarrow> all_load disk mapping order \<Longrightarrow>
   \<exists>st'. pass1 disk mapping g skip order st = Inr st'"
  unfolding all_present_def all_load_def
  by (induction disk mapping g skip order st rule: pass1.induct)
     (auto simp: present_def loads_def Let_def split: option.splits sum.splits)

lemma pass1_fails:
  "first_missing mapping order = Some b \<Longrightarrow>
   \<exists>e. pass1 disk mapping g False order st = Inl e"
  by (induction disk mapping g "False" order st rule: pass1.induct)
     (auto simp: Let_def split: option.splits sum.splits)

lemma pass1_KeyError:
  "first_missing mapping order = Some b \<Longrightarrow>
   all_load disk mapping (before_first_missing mapping order) \<Longrightarrow>
   pass1 disk mapping g False order st = Inl (KeyError b)"
  unfolding all_load_def before_first_missing_def
  by (induction disk mapping g "False" order st rule: pass1.induct)
     (auto simp: present_def loads_def Let_def split: option.splits sum.splits)



lemma pass2_size:
  "cwidth (pass2 mw its y cv) = cwidth cv \<and> cheight (pass2 mw its y cv) = cheight cv"
  by (induction mw its y cv rule: pass2.induct) (auto simp: alpha_composite_def Let_def)

lemma stack_canvas_Inr:
  assumes "stack_canvas disk can_allocate order mapping g skip = Inr cv"
  shows "\<exists>st. pass1 disk mapping g skip order \<lparr>items = [], max_w = 1, total_h = 0\<rparr> = Inr st \<and>
              0 \<le> total_h st \<and> total_h st < 2 ^ 31 \<and> max_w st < 2 ^ 31 \<and>
              can_allocate (max_w st, total_h st) \<and>
              cv = pass2 (max_w st) (items st) 0 \<lparr>cwidth = max_w st, cheight = total_h st, layers = []\<rparr>"
  using assms
  by (auto simp: stack_canvas_def image_new_def split: sum.splits if_splits)

lemma stack_canvas_height:
  assumes "stack_canvas disk can_allocate order mapping g skip = Inr cv"
  shows "cheight cv = (\<Sum>img \<leftarrow> resolved_images disk mapping order. int (height img))
                       + g * int (spacers order)"
proof -
  from stack_canvas_Inr [OF assms] obtain st where
    p: "pass1 disk mapping g skip order \<lparr>items = [], max_w = 1, total_h = 0\<rparr> = Inr st" and
    cv: "cv = pass2 (max_w st) (items st) 0 \<lparr>cwidth = max_w st, cheight = total_h st, layers = []\<rparr>"
    by blast
  from cv have "cheight cv = total_h st" by (simp add: pass2_size)
  with pass1_total_h [OF p] show ?thesis by simp
qed

lemma stack_canvas_width:
  assumes "stack_canvas disk can_allocate order mapping g skip = Inr cv"
  shows "cwidth cv = Max (insert 1 (set (map (\<lambda>img. int (width img)) (resolved_images disk mapping order))))"
proof -
  from stack_canvas_Inr [OF assms] obtain st where
    p: "pass1 disk mapping g skip order \<lparr>items = [], max_w = 1, total_h = 0\<rparr> = Inr st" and
    cv: "cv = pass2 (max_w st) (items st) 0 \<lparr>cwidth = max_w st, cheight = total_h st, layers = []\<rparr>"
    by blast
  from cv have "cwidth cv = max_w st" by (simp add: pass2_size)
  with pass1_max_w [OF p] show ?thesis by simp
qed

text \<open>
  When a canvas is produced: pass 1 ends without an exception, and the size it computed is
  one \<^verbatim>\<open>Image.new\<close> accepts.
\<close>

lemma stack_canvas_produced:
  assumes "skip \<or> all_present mapping order" and "all_load disk mapping order"
    and "0 \<le> (\<Sum>img \<leftarrow> resolved_images disk mapping order. int (height img)) + g * int (spacers order)"
    and "(\<Sum>img \<leftarrow> resolved_images disk mapping order. int (height img)) + g * int (spacers order) < 2 ^ 31"
    and "Max (insert 1 (set (map (\<lambda>img. int (width img)) (resolved_images disk mapping order)))) < 2 ^ 31"
    and "can_allocate
           (Max (insert 1 (set (map (\<lambda>img. int (width img)) (resolved_images disk mapping order)))),
            (\<Sum>img \<leftarrow> resolved_images disk mapping order. int (height img)) + g * int (spacers order))"
  shows "\<exists>cv. stack_canvas disk can_allocate order mapping g skip = Inr cv"
proof -
  from pass1_succeeds [OF assms(1,2)] obtain st where
    p: "pass1 disk mapping g skip order \<lparr>items = [], max_w = 1, total_h = 0\<rparr> = Inr st"
    by blast
  from pass1_total_h [OF p] have h: "total_h st = (\<Sum>img \<leftarrow> resolved_images disk mapping order. int (height img)) + g * int (spacers order)"
    by simp
  from pass1_max_w [OF p] have w: "max_w st = Max (insert 1 (set (map (\<lambda>img. int (width img)) (resolved_images disk mapping order))))"
    by simp
  have "1 \<le> max_w st" unfolding w by simp
  with p assms(3-6) show ?thesis
    unfolding h [symmetric] w [symmetric]
    by (simp add: stack_canvas_def image_new_def)
qed

lemma stack_dhd_saves:
  assumes "stack_canvas disk can_allocate order mapping g skip = Inr cv"
    and "0 < cheight cv" and "can_write path cv"
  shows "stack_dhd disk can_allocate can_write order mapping path g skip saved = (None, saved(path \<mapsto> cv))"
proof -
  from stack_canvas_width [OF assms(1)] have "1 \<le> cwidth cv" by simp
  with assms show ?thesis by (simp add: stack_dhd_def canvas_save_def)
qed

lemma stack_dhd_None:
  assumes "stack_dhd disk can_allocate can_write order mapping path g skip saved = (None, saved')"
  shows "\<exists>cv. stack_canvas disk can_allocate order mapping g skip = Inr cv \<and> saved' = saved(path \<mapsto> cv) \<and>
              0 < cheight cv \<and> can_write path cv"
proof -
  from assms obtain cv where cv: "stack_canvas disk can_allocate order mapping g skip = Inr cv"
    and s: "canvas_save can_write cv path saved = (None, saved')"
    by (auto simp: stack_dhd_def split: sum.splits)
  from stack_canvas_Inr [OF cv] have "0 \<le> cheight cv" by (auto simp: pass2_size)
  with s cv show ?thesis by (auto simp: canvas_save_def split: if_splits)
qed

section \<open>Properties of the Stack Compositor\<close>

text \<open>
  C1. Whenever \<open>stack_dhd\<close> produces a canvas, and so whenever it saves one, its height is
  the sum of the heights of the images the order resolves to plus \<open>gap_pixels\<close> times the
  number of spacers. For a non-empty order whose names are all keys of the mapping and
  whose sources all open, and a gap that is not negative, a canvas of that height is
  produced when \<^verbatim>\<open>Image.new\<close> accepts the size (both sides below \<open>2^31\<close> and
  allocatable); it is saved when moreover the height is positive and the path can be
  written.
\<close>

theorem stack_dhd_height:
  "(\<forall>cv. stack_canvas disk can_allocate order mapping gap_pixels skip_missing = Inr cv \<longrightarrow>
      cheight cv = (\<Sum>img \<leftarrow> resolved_images disk mapping order. int (height img))
                   + gap_pixels * int (spacers order)) \<and>
   (\<forall>saved'. stack_dhd disk can_allocate can_write order mapping path gap_pixels skip_missing saved
                = (None, saved') \<longrightarrow>
      (\<exists>cv. saved' = saved(path \<mapsto> cv) \<and>
            cheight cv = (\<Sum>img \<leftarrow> resolved_images disk mapping order. int (height img))
                         + gap_pixels * int (spacers order))) \<and>
   (order \<noteq> [] \<and> all_present mapping order \<and> all_load disk mapping order \<and>
    0 \<le> gap_pixels \<and>
    0 \<le> (\<Sum>img \<leftarrow> resolved_images disk mapping order. int (height img))
          + gap_pixels * int (spacers order) \<and>
    (\<Sum>img \<leftarrow> resolved_images disk mapping order. int (height img))
          + gap_pixels * int (spacers order) < 2 ^ 31 \<and>
    Max (insert 1 (set (map (\<lambda>img. int (width img)) (resolved_images disk mapping order)))) < 2 ^ 31 \<and>
    can_allocate
      (Max (insert 1 (set (map (\<lambda>img. int (width img)) (resolved_images disk mapping order)))),
       (\<Sum>img \<leftarrow> resolved_images disk mapping order. int (height img))
          + gap_pixels * int (spacers order)) \<longrightarrow>
      (\<exists>cv. stack_canvas disk can_allocate order mapping gap_pixels skip_missing = Inr cv \<and>
            cheight cv = (\<Sum>img \<leftarrow> resolved_images disk mapping order. int (height img))
                         + gap_pixels * int (spacers order) \<and>
            (0 < cheight cv \<and> can_write path cv \<longrightarrow>
               stack_dhd disk can_allocate can_write order mapping path gap_pixels skip_missing saved
                 = (None, saved(path \<mapsto> cv)))))"
proof (intro conjI allI impI)
  fix cv assume "stack_canvas disk can_allocate order mapping gap_pixels skip_missing = Inr cv"
  then show "cheight cv = (\<Sum>img \<leftarrow> resolved_images disk mapping order. int (height img))
                   + gap_pixels * int (spacers order)"
    by (rule stack_canvas_height)
next
  fix saved'
  assume "stack_dhd disk can_allocate can_write order mapping path gap_pixels skip_missing saved
                = (None, saved')"
  from stack_dhd_None [OF this] obtain cv where
    cv: "stack_canvas disk can_allocate order mapping gap_pixels skip_missing = Inr cv"
    and s: "saved' = saved(path \<mapsto> cv)" by blast
  from stack_canvas_height [OF cv] s
  show "\<exists>cv. saved' = saved(path \<mapsto> cv) \<and>
            cheight cv = (\<Sum>img \<leftarrow> resolved_images disk mapping order. int (height img))
                         + gap_pixels * int (spacers order)"
    by blast
next
  let ?H = "(\<Sum>img \<leftarrow> resolved_images disk mapping order. int (height img))
          + gap_pixels * int (spacers order)"
  let ?W = "Max (insert 1 (set (map (\<lambda>img. int (width img)) (resolved_images disk mapping order))))"
  assume a: "order \<noteq> [] \<and> all_present mapping order \<and> all_load disk mapping order \<and>
    0 \<le> gap_pixels \<and>
    0 \<le> ?H \<and> ?H < 2 ^ 31 \<and> ?W < 2 ^ 31 \<and> can_allocate (?W, ?H)"
  then obtain cv where cv: "stack_canvas disk can_allocate order mapping gap_pixels skip_missing = Inr cv"
    using stack_canvas_produced [of skip_missing mapping order disk gap_pixels can_allocate] by blast
  from stack_dhd_saves [OF cv] stack_canvas_height [OF cv] cv
  show "\<exists>cv. stack_canvas disk can_allocate order mapping gap_pixels skip_missing = Inr cv \<and>
            cheight cv = ?H \<and>
            (0 < cheight cv \<and> can_write path cv \<longrightarrow>
               stack_dhd disk can_allocate can_write order mapping path gap_pixels skip_missing saved
                 = (None, saved(path \<mapsto> cv)))"
    by blast
qed

lemma resolved_images_example:
  "resolved_images Map.empty [''a'' \<mapsto> InMemory \<lparr>width = 3, height = 5, mode = ''RGB'', picture = []\<rparr>]
     [None, Some ''a'']
   = [\<lparr>width = 3, height = 5, mode = ''RGBA'', picture = []\<rparr>]"
  by (simp add: resolved_images_Cons resolved_images_Nil resolve_def load_image_def convert_rgba_def)

theorem stack_dhd_height_witness:
  "[None, Some ''a''] \<noteq> [] \<and>
   all_present [''a'' \<mapsto> InMemory \<lparr>width = 3, height = 5, mode = ''RGB'', picture = []\<rparr>] [None, Some ''a''] \<and>
   all_load Map.empty [''a'' \<mapsto> InMemory \<lparr>width = 3, height = 5, mode = ''RGB'', picture = []\<rparr>] [None, Some ''a''] \<and>
   (\<exists>cv. stack_canvas Map.empty (\<lambda>sz. sz = (3, 7)) [None, Some ''a'']
           [''a'' \<mapsto> InMemory \<lparr>width = 3, height = 5, mode = ''RGB'', picture = []\<rparr>] 2 False = Inr cv \<and>
         stack_dhd Map.empty (\<lambda>sz. sz = (3, 7)) (\<lambda>p cv. p = ''out.png'') [None, Some ''a'']
           [''a'' \<mapsto> InMemory \<lparr>width = 3, height = 5, mode = ''RGB'', picture = []\<rparr>] ''out.png'' 2 False Map.empty
           = (None, [''out.png'' \<mapsto> cv]) \<and>
         cheight cv = 7)"
proof -
  let ?m = "[''a'' \<mapsto> InMemory \<lparr>width = 3, height = 5, mode = ''RGB'', picture = []\<rparr>]"
  let ?o = "[None, Some ''a'']"
  have p: "all_present ?m ?o" by (simp add: all_present_def present_def)
  have l: "all_load Map.empty ?m ?o" by (simp add: all_load_def loads_def load_image_def)
  from stack_dhd_height [of Map.empty "\<lambda>sz. sz = (3, 7)" ?o ?m 2 False "\<lambda>p cv. p = ''out.png''" "''out.png''" Map.empty]
    p l
  obtain cv where "stack_canvas Map.empty (\<lambda>sz. sz = (3, 7)) ?o ?m 2 False = Inr cv"
    and "cheight cv = 7"
    and "0 < cheight cv \<and> ''out.png'' = ''out.png'' \<longrightarrow>
         stack_dhd Map.empty (\<lambda>sz. sz = (3, 7)) (\<lambda>p cv. p = ''out.png'') ?o ?m ''out.png'' 2 False Map.empty
           = (None, [''out.png'' \<mapsto> cv])"
    by (auto simp: resolved_images_example spacers_def)
  with p l show ?thesis by auto
qed






text \<open>
  A name that is not a key is skipped under \<open>skip_missing\<close>; the first missing name of an
  order is one of its names, and the entries before it are all present; they all load
  exactly when none of them has a load error, and the first load error among them is what
  pass 1 raises.
\<close>

lemma pass1_skip_last:
  "mapping b = None \<Longrightarrow>
   pass1 disk mapping g True (xs @ [Some b]) st = pass1 disk mapping g True xs st"
  by (simp add: pass1_append split: sum.splits)

lemma first_missing_exists:
  "Some label \<in> set order \<Longrightarrow> mapping label = None \<Longrightarrow>
   \<exists>b. first_missing mapping order = Some b"
  by (induction mapping order rule: first_missing.induct) (auto split: option.splits)

lemma first_missing_is_missing:
  "first_missing mapping order = Some b \<Longrightarrow> Some b \<in> set order \<and> mapping b = None"
  by (induction mapping order rule: first_missing.induct) (auto split: option.splits)

lemma first_missing_split:
  "first_missing mapping order = Some b \<Longrightarrow>
   order = before_first_missing mapping order @ Some b # drop (Suc (length (before_first_missing mapping order))) order
   \<and> all_present mapping (before_first_missing mapping order)"
  unfolding before_first_missing_def all_present_def
  by (induction mapping order rule: first_missing.induct)
     (auto simp: present_def split: option.splits)

lemma all_load_Nil: "all_load disk mapping []"
  by (simp add: all_load_def)

lemma all_load_Cons:
  "all_load disk mapping (entry # rest) \<longleftrightarrow> loads disk mapping entry \<and> all_load disk mapping rest"
  by (simp add: all_load_def)

lemma all_load_iff: "all_load disk mapping order \<longleftrightarrow> first_load_error disk mapping order = None"
proof (induction disk mapping order rule: first_load_error.induct)
  case (1 disk mapping)
  show ?case by (simp add: all_load_Nil)
next
  case (2 disk mapping rest)
  then show ?case by (simp add: all_load_Cons loads_def)
next
  case (3 disk mapping label rest)
  show ?case
  proof (cases "mapping label")
    case None
    with 3(1) show ?thesis by (simp add: all_load_Cons loads_def)
  next
    case (Some s)
    show ?thesis
    proof (cases "load_image disk s")
      case (Inl e)
      with Some show ?thesis by (simp add: all_load_Cons loads_def)
    next
      case (Inr img)
      with Some 3(2) show ?thesis by (simp add: all_load_Cons loads_def)
    qed
  qed
qed

lemma load_image_Inl:
  "load_image disk s = Inl e \<Longrightarrow> \<exists>p. s = Path p \<and> disk p = None \<and> e = IOError p"
  by (auto simp: load_image_def split: src.splits option.splits)

lemma first_load_error_IOError:
  "first_load_error disk mapping order = Some e \<Longrightarrow>
   \<exists>label p. Some label \<in> set order \<and> mapping label = Some (Path p) \<and> disk p = None \<and> e = IOError p"
proof (induction disk mapping order rule: first_load_error.induct)
  case (1 disk mapping)
  then show ?case by simp
next
  case (2 disk mapping rest)
  then show ?case by auto
next
  case (3 disk mapping label rest)
  show ?case
  proof (cases "mapping label")
    case None
    with 3(3) have r: "first_load_error disk mapping rest = Some e" by simp
    from 3(1) [OF None r] show ?thesis by auto
  next
    case (Some s)
    show ?thesis
    proof (cases "load_image disk s")
      case (Inl e')
      with Some 3(3) have "e = e'" by simp
      with load_image_Inl [OF Inl] Some show ?thesis by auto
    next
      case (Inr img)
      with Some 3(3) have r: "first_load_error disk mapping rest = Some e" by simp
      from 3(2) [OF Some Inr r] show ?thesis by auto
    qed
  qed
qed

lemma pass1_load_error:
  "first_missing mapping order = Some b \<Longrightarrow>
   first_load_error disk mapping (before_first_missing mapping order) = Some e \<Longrightarrow>
   pass1 disk mapping g False order st = Inl e"
  unfolding before_first_missing_def
  by (induction disk mapping g "False" order st rule: pass1.induct)
     (auto simp: present_def Let_def split: option.splits sum.splits)

text \<open>
  C3, as stated, fails: the signature's default for \<open>gap_pixels\<close> is 6 (and the docstring
  says so), not 8. One spacer and no \<open>gap_pixels\<close> argument give a canvas 6 pixels high;
  8 pixels need the argument.
\<close>

theorem stack_dhd_default_gap_counterexample:
  "stack_dhd_kw Map.empty (\<lambda>sz. True) (\<lambda>p cv. True) [None] Map.empty None None None Map.empty
     = (None, [''stack.png'' \<mapsto> \<lparr>cwidth = 1, cheight = 6, layers = []\<rparr>]) \<and>
   stack_dhd_kw Map.empty (\<lambda>sz. True) (\<lambda>p cv. True) [None] Map.empty None (Some 8) None Map.empty
     = (None, [''stack.png'' \<mapsto> \<lparr>cwidth = 1, cheight = 8, layers = []\<rparr>])"
  by (simp add: stack_dhd_kw_def stack_dhd_def stack_canvas_def image_new_def canvas_save_def)

text \<open>
  C3, amended. Calling \<open>stack_dhd\<close> without \<open>gap_pixels\<close> is calling it with
  \<open>gap_pixels = 6\<close>: when it saves a canvas, every spacer of the order adds 6 pixels to the
  height. (The pipeline \<^verbatim>\<open>convert_DHD_report_to_excel\<close> passes \<^verbatim>\<open>gap_pixels=8\<close> itself.)
\<close>

theorem stack_dhd_default_gap:
  "stack_dhd_kw disk can_allocate can_write order mapping path_arg None skip_arg saved
     = stack_dhd_kw disk can_allocate can_write order mapping path_arg (Some 6) skip_arg saved \<and>
   (\<forall>saved'. stack_dhd_kw disk can_allocate can_write order mapping path_arg None skip_arg saved
                = (None, saved') \<longrightarrow>
      (\<exists>cv. saved' (case path_arg of None \<Rightarrow> ''stack.png'' | Some p \<Rightarrow> p) = Some cv \<and>
            cheight cv = (\<Sum>img \<leftarrow> resolved_images disk mapping order. int (height img))
                         + 6 * int (spacers order)))"
proof (intro conjI allI impI)
  show "stack_dhd_kw disk can_allocate can_write order mapping path_arg None skip_arg saved
     = stack_dhd_kw disk can_allocate can_write order mapping path_arg (Some 6) skip_arg saved"
    by (simp add: stack_dhd_kw_def)
next
  fix saved'
  let ?skip = "case skip_arg of None \<Rightarrow> True | Some b \<Rightarrow> b"
  let ?path = "case path_arg of None \<Rightarrow> ''stack.png'' | Some p \<Rightarrow> p"
  assume "stack_dhd_kw disk can_allocate can_write order mapping path_arg None skip_arg saved = (None, saved')"
  then have "stack_dhd disk can_allocate can_write order mapping ?path 6 ?skip saved = (None, saved')"
    by (simp add: stack_dhd_kw_def)
  from stack_dhd_None [OF this] obtain cv where
    cv: "stack_canvas disk can_allocate order mapping 6 ?skip = Inr cv"
    and s: "saved' = saved(?path \<mapsto> cv)"
    by blast
  from stack_canvas_height [OF cv] s
  show "\<exists>cv. saved' ?path = Some cv \<and>
            cheight cv = (\<Sum>img \<leftarrow> resolved_images disk mapping order. int (height img))
                         + 6 * int (spacers order)"
    by simp
qed

theorem stack_dhd_default_gap_witness:
  "stack_dhd_kw Map.empty (\<lambda>sz. True) (\<lambda>p cv. True) [None, None] Map.empty None None None Map.empty
     = stack_dhd_kw Map.empty (\<lambda>sz. True) (\<lambda>p cv. True) [None, None] Map.empty None (Some 6) None Map.empty \<and>
   (\<exists>cv. snd (stack_dhd_kw Map.empty (\<lambda>sz. True) (\<lambda>p cv. True) [None, None] Map.empty None None None Map.empty)
            ''stack.png'' = Some cv \<and>
         cheight cv = 12)"
proof -
  let ?sv = "[''stack.png'' \<mapsto> \<lparr>cwidth = 1, cheight = 12, layers = []\<rparr>]"
  have r: "stack_dhd_kw Map.empty (\<lambda>sz. True) (\<lambda>p cv. True) [None, None] Map.empty None None None Map.empty = (None, ?sv)"
    by (simp add: stack_dhd_kw_def stack_dhd_def stack_canvas_def image_new_def canvas_save_def)
  note t = stack_dhd_default_gap [of Map.empty "\<lambda>sz. True" "\<lambda>p cv. True" "[None, None]" Map.empty None None Map.empty]
  from t have 1: "stack_dhd_kw Map.empty (\<lambda>sz. True) (\<lambda>p cv. True) [None, None] Map.empty None None None Map.empty
     = stack_dhd_kw Map.empty (\<lambda>sz. True) (\<lambda>p cv. True) [None, None] Map.empty None (Some 6) None Map.empty"
    by (rule conjunct1)
  from t r have "\<exists>cv. ?sv ''stack.png'' = Some cv \<and>
      cheight cv = (\<Sum>img \<leftarrow> resolved_images Map.empty Map.empty [None, None]. int (height img))
                   + 6 * int (spacers [None, None])"
    by simp
  then have "\<exists>cv. ?sv ''stack.png'' = Some cv \<and> cheight cv = 12"
    by (simp add: resolved_images_Cons resolved_images_Nil resolve_def spacers_def)
  then have 2: "\<exists>cv. snd (stack_dhd_kw Map.empty (\<lambda>sz. True) (\<lambda>p cv. True) [None, None] Map.empty None None None Map.empty)
                  ''stack.png'' = Some cv \<and> cheight cv = 12"
    unfolding r snd_conv .
  from 1 2 show ?thesis by (rule conjI)
qed

text \<open>
  C4. With \<open>skip_missing\<close> true and \<open>B\<close> not a key of the mapping, the order \<open>[A, B]\<close> gives
  what the order \<open>[A]\<close> gives with the same mapping and gap: the same canvas (size and
  painted images) or the same exception, and the same saved files.
\<close>

theorem stack_dhd_skip_missing:
  "mapping B = None \<Longrightarrow>
   stack_canvas disk can_allocate [Some A, Some B] mapping gap_pixels True
     = stack_canvas disk can_allocate [Some A] mapping gap_pixels True \<and>
   stack_dhd disk can_allocate can_write [Some A, Some B] mapping path gap_pixels True saved
     = stack_dhd disk can_allocate can_write [Some A] mapping path gap_pixels True saved"
proof -
  assume b: "mapping B = None"
  have "pass1 disk mapping gap_pixels True ([Some A] @ [Some B]) st
        = pass1 disk mapping gap_pixels True [Some A] st" for st
    using b by (rule pass1_skip_last)
  then have "stack_canvas disk can_allocate [Some A, Some B] mapping gap_pixels True
     = stack_canvas disk can_allocate [Some A] mapping gap_pixels True"
    by (simp add: stack_canvas_def)
  then show ?thesis by (simp add: stack_dhd_def)
qed

theorem stack_dhd_skip_missing_witness:
  "[''A'' \<mapsto> InMemory \<lparr>width = 3, height = 5, mode = ''RGB'', picture = [7]\<rparr>] ''B'' = None \<and>
   stack_dhd Map.empty (\<lambda>sz. True) (\<lambda>p cv. True) [Some ''A'', Some ''B'']
     [''A'' \<mapsto> InMemory \<lparr>width = 3, height = 5, mode = ''RGB'', picture = [7]\<rparr>] ''o.png'' 6 True Map.empty
     = stack_dhd Map.empty (\<lambda>sz. True) (\<lambda>p cv. True) [Some ''A'']
     [''A'' \<mapsto> InMemory \<lparr>width = 3, height = 5, mode = ''RGB'', picture = [7]\<rparr>] ''o.png'' 6 True Map.empty \<and>
   stack_canvas Map.empty (\<lambda>sz. True) [Some ''A'']
     [''A'' \<mapsto> InMemory \<lparr>width = 3, height = 5, mode = ''RGB'', picture = [7]\<rparr>] 6 True
     = Inr \<lparr>cwidth = 3, cheight = 5,
            layers = [(\<lparr>width = 3, height = 5, mode = ''RGBA'', picture = [7]\<rparr>, 0, 0)]\<rparr>"
  using stack_dhd_skip_missing [of "[''A'' \<mapsto> InMemory \<lparr>width = 3, height = 5, mode = ''RGB'', picture = [7]\<rparr>]"
          "''B''" Map.empty "\<lambda>sz. True" "''A''" 6 "\<lambda>p cv. True" "''o.png''" Map.empty]
  by (simp add: stack_canvas_def image_new_def load_image_def convert_rgba_def alpha_composite_def)

text \<open>
  C5, as stated, fails when a name before the first missing one maps to a path that
  cannot be opened: \<^verbatim>\<open>Image.open\<close> raises first, and the error is not a KeyError.
\<close>

theorem stack_dhd_fail_fast_counterexample:
  "first_missing [''A'' \<mapsto> Path ''a.png''] [Some ''A'', Some ''B''] = Some ''B'' \<and>
   stack_canvas Map.empty (\<lambda>sz. True) [Some ''A'', Some ''B''] [''A'' \<mapsto> Path ''a.png''] 6 False
     = Inl (IOError ''a.png'')"
  by (simp add: stack_canvas_def load_image_def)

text \<open>
  C5, amended. An order that holds a name absent from the mapping has a first missing
  name \<open>b\<close>, and with \<open>skip_missing\<close> false \<open>stack_dhd\<close> then raises in pass 1: no canvas is
  made and the saved files are as before. When every source named before \<open>b\<close> opens, the
  exception is \<open>KeyError b\<close>; otherwise it is the error of the first of them that does not
  open, the error \<^verbatim>\<open>Image.open\<close> raises on its path.
\<close>

theorem stack_dhd_fail_fast:
  "((\<exists>label. Some label \<in> set order \<and> mapping label = None) \<longrightarrow>
      (\<exists>b. first_missing mapping order = Some b)) \<and>
   (first_missing mapping order = Some b \<longrightarrow>
      Some b \<in> set order \<and> mapping b = None \<and>
      all_present mapping (before_first_missing mapping order) \<and>
      (\<exists>e. stack_canvas disk can_allocate order mapping gap_pixels False = Inl e \<and>
           stack_dhd disk can_allocate can_write order mapping path gap_pixels False saved = (Some e, saved)) \<and>
      (all_load disk mapping (before_first_missing mapping order) \<longrightarrow>
         stack_canvas disk can_allocate order mapping gap_pixels False = Inl (KeyError b) \<and>
         stack_dhd disk can_allocate can_write order mapping path gap_pixels False saved
           = (Some (KeyError b), saved)) \<and>
      (\<not> all_load disk mapping (before_first_missing mapping order) \<longrightarrow>
         (\<exists>label p. Some label \<in> set (before_first_missing mapping order) \<and>
                    mapping label = Some (Path p) \<and> disk p = None \<and>
                    first_load_error disk mapping (before_first_missing mapping order) = Some (IOError p) \<and>
                    stack_canvas disk can_allocate order mapping gap_pixels False = Inl (IOError p) \<and>
                    stack_dhd disk can_allocate can_write order mapping path gap_pixels False saved
                      = (Some (IOError p), saved))))"
proof (intro conjI impI)
  assume "\<exists>label. Some label \<in> set order \<and> mapping label = None"
  then show "\<exists>b. first_missing mapping order = Some b"
    using first_missing_exists by blast
next
  assume f: "first_missing mapping order = Some b"
  from first_missing_is_missing [OF f]
  show "Some b \<in> set order" and "mapping b = None" by simp_all
  from first_missing_split [OF f]
  show "all_present mapping (before_first_missing mapping order)" by simp
  from pass1_fails [OF f] obtain e where
    "pass1 disk mapping gap_pixels False order \<lparr>items = [], max_w = 1, total_h = 0\<rparr> = Inl e"
    by blast
  then show "\<exists>e. stack_canvas disk can_allocate order mapping gap_pixels False = Inl e \<and>
           stack_dhd disk can_allocate can_write order mapping path gap_pixels False saved = (Some e, saved)"
    by (simp add: stack_canvas_def stack_dhd_def)
  { assume l: "all_load disk mapping (before_first_missing mapping order)"
    from pass1_KeyError [OF f l]
    show "stack_canvas disk can_allocate order mapping gap_pixels False = Inl (KeyError b)"
      by (simp add: stack_canvas_def)
    then show "stack_dhd disk can_allocate can_write order mapping path gap_pixels False saved
           = (Some (KeyError b), saved)"
      by (simp add: stack_dhd_def) }
  { assume "\<not> all_load disk mapping (before_first_missing mapping order)"
    then obtain e where e: "first_load_error disk mapping (before_first_missing mapping order) = Some e"
      by (auto simp: all_load_iff)
    from first_load_error_IOError [OF e] obtain label p where
      lp: "Some label \<in> set (before_first_missing mapping order)" "mapping label = Some (Path p)"
          "disk p = None" "e = IOError p"
      by blast
    from pass1_load_error [OF f e]
    have c: "stack_canvas disk can_allocate order mapping gap_pixels False = Inl e"
      by (simp add: stack_canvas_def)
    then have "stack_dhd disk can_allocate can_write order mapping path gap_pixels False saved = (Some e, saved)"
      by (simp add: stack_dhd_def)
    with c e lp
    show "\<exists>label p. Some label \<in> set (before_first_missing mapping order) \<and>
                    mapping label = Some (Path p) \<and> disk p = None \<and>
                    first_load_error disk mapping (before_first_missing mapping order) = Some (IOError p) \<and>
                    stack_canvas disk can_allocate order mapping gap_pixels False = Inl (IOError p) \<and>
                    stack_dhd disk can_allocate can_write order mapping path gap_pixels False saved
                      = (Some (IOError p), saved)"
      by blast }
qed

theorem stack_dhd_fail_fast_witness:
  "first_missing [''A'' \<mapsto> Path ''a.png''] [None, Some ''A'', Some ''B'', Some ''C''] = Some ''B'' \<and>
   all_load [''a.png'' \<mapsto> \<lparr>width = 3, height = 5, mode = ''RGB'', picture = []\<rparr>] [''A'' \<mapsto> Path ''a.png'']
     (before_first_missing [''A'' \<mapsto> Path ''a.png''] [None, Some ''A'', Some ''B'', Some ''C'']) \<and>
   stack_dhd [''a.png'' \<mapsto> \<lparr>width = 3, height = 5, mode = ''RGB'', picture = []\<rparr>] (\<lambda>sz. True) (\<lambda>p cv. True)
     [None, Some ''A'', Some ''B'', Some ''C''] [''A'' \<mapsto> Path ''a.png''] ''o.png'' 6 False Map.empty
     = (Some (KeyError ''B''), Map.empty) \<and>
   \<not> all_load Map.empty [''A'' \<mapsto> Path ''a.png'']
     (before_first_missing [''A'' \<mapsto> Path ''a.png''] [None, Some ''A'', Some ''B'', Some ''C'']) \<and>
   stack_dhd Map.empty (\<lambda>sz. True) (\<lambda>p cv. True)
     [None, Some ''A'', Some ''B'', Some ''C''] [''A'' \<mapsto> Path ''a.png''] ''o.png'' 6 False Map.empty
     = (Some (IOError ''a.png''), Map.empty)"
proof -
  let ?m = "[''A'' \<mapsto> Path ''a.png'']"
  let ?o = "[None, Some ''A'', Some ''B'', Some ''C'']"
  let ?d = "[''a.png'' \<mapsto> \<lparr>width = 3, height = 5, mode = ''RGB'', picture = []\<rparr>]"
  have f: "first_missing ?m ?o = Some ''B''" by simp
  have b: "before_first_missing ?m ?o = [None, Some ''A'']"
    by (simp add: before_first_missing_def present_def)
  have l: "all_load ?d ?m (before_first_missing ?m ?o)"
    unfolding b by (simp add: all_load_def loads_def load_image_def)
  have n: "\<not> all_load Map.empty ?m (before_first_missing ?m ?o)"
    unfolding b by (simp add: all_load_def loads_def load_image_def)
  from stack_dhd_fail_fast [of ?o ?m "''B''" ?d "\<lambda>sz. True" 6 "\<lambda>p cv. True" "''o.png''" Map.empty] f l
  have 1: "stack_dhd ?d (\<lambda>sz. True) (\<lambda>p cv. True) ?o ?m ''o.png'' 6 False Map.empty = (Some (KeyError ''B''), Map.empty)"
    by blast
  from stack_dhd_fail_fast [of ?o ?m "''B''" Map.empty "\<lambda>sz. True" 6 "\<lambda>p cv. True" "''o.png''" Map.empty] f n
  obtain label p where "Some label \<in> set (before_first_missing ?m ?o)" and "?m label = Some (Path p)"
    and "stack_dhd Map.empty (\<lambda>sz. True) (\<lambda>p cv. True) ?o ?m ''o.png'' 6 False Map.empty = (Some (IOError p), Map.empty)"
    by blast
  then have 2: "stack_dhd Map.empty (\<lambda>sz. True) (\<lambda>p cv. True) ?o ?m ''o.png'' 6 False Map.empty
                = (Some (IOError ''a.png''), Map.empty)"
    unfolding b by (auto split: if_splits)
  from f l 1 n 2 show ?thesis by blast
qed



section \<open>Properties of the Component Mapper\<close>

text \<open>
  Storing a pair sets the value of its key and appends the key only if it is new; so the
  dict built from a list of pairs looks every key up at its last pair and lists the keys
  in the order of their first pairs.
\<close>

lemma map_of_dict_set: "map_of (dict_set d k v) = (map_of d)(k \<mapsto> v)"
  by (induction d k v rule: dict_set.induct) (auto simp: fun_eq_iff)

lemma keys_dict_set:
  "map fst (dict_set d k v) = (if k \<in> set (map fst d) then map fst d else map fst d @ [k])"
  by (induction d k v rule: dict_set.induct) auto

lemma map_of_fold_dict_set:
  "map_of (fold (\<lambda>(k, v) d. dict_set d k v) ps d0) = map_of d0 ++ map_of (rev ps)"
proof (induction ps arbitrary: d0)
  case Nil
  then show ?case by simp
next
  case (Cons p ps)
  obtain k v where p: "p = (k, v)" by (cases p)
  have "map_of (fold (\<lambda>(k, v) d. dict_set d k v) (p # ps) d0)
        = map_of (fold (\<lambda>(k, v) d. dict_set d k v) ps (dict_set d0 k v))"
    by (simp add: p)
  also have "\<dots> = map_of (dict_set d0 k v) ++ map_of (rev ps)"
    by (rule Cons.IH)
  also have "\<dots> = (map_of d0)(k \<mapsto> v) ++ map_of (rev ps)"
    by (simp only: map_of_dict_set)
  also have "\<dots> = map_of d0 ++ map_of (rev (p # ps))"
    by (auto simp: p fun_eq_iff map_add_def split: option.splits)
  finally show ?case .
qed

lemma remdups_drop_later:
  "x \<in> set ys \<Longrightarrow> remdups (xs @ x # ys) = remdups (xs @ ys)"
  by (induction xs) auto

lemma keys_fold_dict_set:
  "distinct (map fst d0) \<Longrightarrow>
   map fst (fold (\<lambda>(k, v) d. dict_set d k v) ps d0) = first_occurrences (map fst d0 @ map fst ps)"
proof (induction ps arbitrary: d0)
  case Nil
  then show ?case by (simp add: first_occurrences_def distinct_remdups_id)
next
  case (Cons p ps)
  obtain k v where p: "p = (k, v)" by (cases p)
  have d: "distinct (map fst (dict_set d0 k v))"
    using Cons.prems by (simp add: keys_dict_set)
  show ?case
  proof (cases "k \<in> set (map fst d0)")
    case True
    then have "remdups (rev (map fst ps) @ k # rev (map fst d0)) = remdups (rev (map fst ps) @ rev (map fst d0))"
      by (intro remdups_drop_later) simp
    with Cons.IH [OF d] p True show ?thesis
      by (simp add: keys_dict_set first_occurrences_def)
  next
    case False
    with Cons.IH [OF d] p show ?thesis
      by (simp add: keys_dict_set first_occurrences_def)
  qed
qed

lemma dict_of_pairs_lookup: "map_of (dict_of_pairs ps) k = map_of (rev ps) k"
  by (simp add: dict_of_pairs_def map_of_fold_dict_set)

lemma dict_of_pairs_keys: "map fst (dict_of_pairs ps) = first_occurrences (map fst ps)"
  using keys_fold_dict_set [of "[]" ps] by (simp add: dict_of_pairs_def)

lemma pairs_well_formed:
  "list_all has_keys rows \<Longrightarrow> pairs keep_none rows = Inr (map pair_of (kept keep_none rows))"
  by (induction rows)
     (auto simp: has_keys_def kept_def pair_of_def subscript_def dict_get_def split: option.splits)


lemma set_first_occurrences: "set (first_occurrences ks) = set ks"
  by (simp add: first_occurrences_def)

lemma kept_no_null:
  "list_all has_keys rows \<Longrightarrow> JNull \<notin> set (map fst (map pair_of (kept False rows)))"
  by (induction rows)
     (auto simp: has_keys_def kept_def pair_of_def dict_get_def split: option.splits)

text \<open>
  C7. On a document whose rows all have \<open>item_id\<close> and \<open>mapped_name\<close>, the mapper returns
  a dict of the retained rows (all of them, or with \<open>keep_none\<close> false those whose
  \<open>item_id\<close> is not null): its keys are the item ids in the order of the records, each
  once, at its first record; a key's value is the mapped name of the last record with
  that item id; with \<open>keep_none\<close> false no key is null. The records
  \<open>[{item_id: "1", mapped_name: "Bit"}, {item_id: None, mapped_name: "Sub"}]\<close> with
  \<open>keep_none\<close> false give exactly \<open>{"1": "Bit"}\<close>.
\<close>

theorem make_component_dict_mapping:
  "(json_files json_path = Some data \<and> components data = Some rows \<and> list_all has_keys rows \<longrightarrow>
      (\<exists>d. make_component_dict json_files json_path keep_none = Inr d \<and>
           map fst d = first_occurrences (map fst (map pair_of (kept keep_none rows))) \<and>
           (\<forall>k. map_of d k = map_of (rev (map pair_of (kept keep_none rows))) k) \<and>
           (\<not> keep_none \<longrightarrow> JNull \<notin> set (map fst d)))) \<and>
   make_component_dict
     [path \<mapsto> \<lparr>members = ms,
               components = Some [[''item_id'' \<mapsto> JStr ''1'', ''mapped_name'' \<mapsto> JStr ''Bit''],
                                  [''item_id'' \<mapsto> JNull, ''mapped_name'' \<mapsto> JStr ''Sub'']]\<rparr>]
     path False
   = Inr [(JStr ''1'', JStr ''Bit'')]"
proof (intro conjI impI)
  assume a: "json_files json_path = Some data \<and> components data = Some rows \<and> list_all has_keys rows"
  let ?ps = "map pair_of (kept keep_none rows)"
  from a have m: "make_component_dict json_files json_path keep_none = Inr (dict_of_pairs ?ps)"
    by (simp add: make_component_dict_def read_json_def pairs_well_formed)
  have k: "map fst (dict_of_pairs ?ps) = first_occurrences (map fst ?ps)"
    by (rule dict_of_pairs_keys)
  have l: "\<forall>k. map_of (dict_of_pairs ?ps) k = map_of (rev ?ps) k"
    by (simp add: dict_of_pairs_lookup)
  have n: "\<not> keep_none \<longrightarrow> JNull \<notin> set (map fst (dict_of_pairs ?ps))"
  proof
    assume "\<not> keep_none"
    then have "keep_none = False" by simp
    with a kept_no_null [of rows] show "JNull \<notin> set (map fst (dict_of_pairs ?ps))"
      unfolding k set_first_occurrences by simp
  qed
  from m k l n
  show "\<exists>d. make_component_dict json_files json_path keep_none = Inr d \<and>
           map fst d = first_occurrences (map fst ?ps) \<and>
           (\<forall>k. map_of d k = map_of (rev ?ps) k) \<and>
           (\<not> keep_none \<longrightarrow> JNull \<notin> set (map fst d))"
    by blast
next
  show "make_component_dict
     [path \<mapsto> \<lparr>members = ms,
               components = Some [[''item_id'' \<mapsto> JStr ''1'', ''mapped_name'' \<mapsto> JStr ''Bit''],
                                  [''item_id'' \<mapsto> JNull, ''mapped_name'' \<mapsto> JStr ''Sub'']]\<rparr>]
     path False
   = Inr [(JStr ''1'', JStr ''Bit'')]"
    by (simp add: make_component_dict_def read_json_def subscript_def dict_of_pairs_def)
qed

theorem make_component_dict_mapping_witness:
  "list_all has_keys [[''item_id'' \<mapsto> JStr ''7'', ''mapped_name'' \<mapsto> JStr ''Bit''],
                      [''item_id'' \<mapsto> JNull, ''mapped_name'' \<mapsto> JStr ''Sub''],
                      [''item_id'' \<mapsto> JStr ''9'', ''mapped_name'' \<mapsto> JStr ''Packer''],
                      [''item_id'' \<mapsto> JStr ''7'', ''mapped_name'' \<mapsto> JStr ''Mill'']] \<and>
   make_component_dict
     [''page_1.json'' \<mapsto> \<lparr>members = Map.empty, components = Some
        [[''item_id'' \<mapsto> JStr ''7'', ''mapped_name'' \<mapsto> JStr ''Bit''],
         [''item_id'' \<mapsto> JNull, ''mapped_name'' \<mapsto> JStr ''Sub''],
         [''item_id'' \<mapsto> JStr ''9'', ''mapped_name'' \<mapsto> JStr ''Packer''],
         [''item_id'' \<mapsto> JStr ''7'', ''mapped_name'' \<mapsto> JStr ''Mill'']]\<rparr>]
     ''page_1.json'' False
   = Inr [(JStr ''7'', JStr ''Mill''), (JStr ''9'', JStr ''Packer'')] \<and>
   make_component_dict
     [''p'' \<mapsto> \<lparr>members = Map.empty,
               components = Some [[''item_id'' \<mapsto> JStr ''1'', ''mapped_name'' \<mapsto> JStr ''Bit''],
                                  [''item_id'' \<mapsto> JNull, ''mapped_name'' \<mapsto> JStr ''Sub'']]\<rparr>]
     ''p'' False
   = Inr [(JStr ''1'', JStr ''Bit'')]"
proof -
  let ?rows = "[[''item_id'' \<mapsto> JStr ''7'', ''mapped_name'' \<mapsto> JStr ''Bit''],
         [''item_id'' \<mapsto> JNull, ''mapped_name'' \<mapsto> JStr ''Sub''],
         [''item_id'' \<mapsto> JStr ''9'', ''mapped_name'' \<mapsto> JStr ''Packer''],
         [''item_id'' \<mapsto> JStr ''7'', ''mapped_name'' \<mapsto> JStr ''Mill'']]"
  let ?data = "\<lparr>members = Map.empty, components = Some ?rows\<rparr>"
  let ?files = "[''page_1.json'' \<mapsto> ?data]"
  note t = make_component_dict_mapping [of ?files "''page_1.json''" ?data ?rows False "''p''" Map.empty]
  have h: "list_all has_keys ?rows" by (simp add: has_keys_def)
  have kp: "map pair_of (kept False ?rows)
            = [(JStr ''7'', JStr ''Bit''), (JStr ''9'', JStr ''Packer''), (JStr ''7'', JStr ''Mill'')]"
    by (simp add: kept_def pair_of_def dict_get_def)
  from t h obtain d where d: "make_component_dict ?files ''page_1.json'' False = Inr d"
    and ks: "map fst d = first_occurrences (map fst (map pair_of (kept False ?rows)))"
    and lk: "\<forall>k. map_of d k = map_of (rev (map pair_of (kept False ?rows))) k"
    by auto
  from ks have ks': "map fst d = [JStr ''7'', JStr ''9'']"
    unfolding kp by (simp add: first_occurrences_def)
  from lk have "map_of d (JStr ''7'') = Some (JStr ''Mill'')" and "map_of d (JStr ''9'') = Some (JStr ''Packer'')"
    unfolding kp by simp_all
  with ks' have "d = [(JStr ''7'', JStr ''Mill''), (JStr ''9'', JStr ''Packer'')]"
    by (cases d; cases "tl d"; cases "tl (tl d)") (auto split: if_splits)
  with d h t show ?thesis by simp
qed

section \<open>Properties of slugify\<close>

text \<open>
  The result depends on the normal form only; the classes of the two regular expressions
  are disjoint from the word characters and lie in ASCII; lowering maps a word character
  to a slug character and leaves a separator alone.
\<close>

lemma slugify_via_nfkd: "slugify nfkd text = slugify (\<lambda>t. t) (nfkd text)"
  by (simp add: slugify_def)

lemma slugify_acracia: "slugify (\<lambda>t. t) ''Acracia # 1'' = ''acracia_1''"
  by code_simp

lemma word_not_sep: "is_word c \<Longrightarrow> \<not> is_sep c"
  by (auto simp: is_word_def is_sep_def is_space_def is_upper_def is_lower_def is_digit_def)

lemma word_ascii: "is_word c \<Longrightarrow> is_ascii c"
  by (auto simp: is_word_def is_ascii_def is_upper_def is_lower_def is_digit_def)

lemma sep_ascii: "is_sep c \<Longrightarrow> is_ascii c"
  by (auto simp: is_sep_def is_ascii_def is_space_def)

lemma lower_char_sep: "is_sep c \<Longrightarrow> lower_char c = c"
  by (auto simp: lower_char_def is_sep_def is_space_def is_upper_def)

lemma lower_char_upper: "is_upper c \<Longrightarrow> is_lower (lower_char c)"
  by (simp add: lower_char_def is_upper_def is_lower_def)

lemma lower_char_word: "is_word c \<Longrightarrow> is_slug_char (lower_char c)"
  using lower_char_upper [of c]
  by (auto simp: is_word_def is_slug_char_def lower_char_def)

lemma slug_char_not_sep: "is_slug_char c \<Longrightarrow> \<not> is_sep c"
  by (auto simp: is_slug_char_def is_sep_def is_space_def is_lower_def is_digit_def)


lemma set_sub_runs: "c \<in> set (sub_runs b xs) \<Longrightarrow> c = CHR ''_'' \<or> (c \<in> set xs \<and> \<not> is_sep c)"
  by (induction b xs rule: sub_runs.induct) (auto split: if_splits)

lemma set_str_strip: "c \<in> set (str_strip xs) \<Longrightarrow> c \<in> set xs"
  unfolding str_strip_def by (auto dest!: set_dropWhileD)

lemma slugify_chars: "c \<in> set (slugify nfkd text) \<Longrightarrow> is_slug_char c"
proof -
  assume "c \<in> set (slugify nfkd text)"
  then have "c \<in> set (sub_runs False (str_lower (str_strip (drop_other (ascii_ignore (nfkd text))))))"
    by (simp add: slugify_def)
  then consider "c = CHR ''_''"
    | "c \<in> set (str_lower (str_strip (drop_other (ascii_ignore (nfkd text)))))" and "\<not> is_sep c"
    using set_sub_runs by blast
  then show ?thesis
  proof cases
    case 1
    then show ?thesis by (simp add: is_slug_char_def)
  next
    case 2
    then obtain d where d: "d \<in> set (str_strip (drop_other (ascii_ignore (nfkd text))))" and c: "c = lower_char d"
      by (auto simp: str_lower_def)
    from d have "d \<in> set (drop_other (ascii_ignore (nfkd text)))" by (rule set_str_strip)
    then have "is_word d \<or> is_space d \<or> d = CHR ''-''" by (simp add: drop_other_def)
    then have "is_word d \<or> is_sep d" by (auto simp: is_sep_def)
    then show ?thesis
    proof
      assume "is_word d"
      with c show ?thesis by (simp add: lower_char_word)
    next
      assume "is_sep d"
      with c 2(2) show ?thesis by (simp add: lower_char_sep)
    qed
  qed
qed

lemma sub_runs_words:
  "list_all (\<lambda>c. \<not> is_sep c) x \<Longrightarrow> x \<noteq> [] \<Longrightarrow> sub_runs b (x @ rest) = x @ sub_runs False rest"
proof (induction x arbitrary: b)
  case Nil
  then show ?case by simp
next
  case (Cons a x)
  then show ?case by (cases x) auto
qed

lemma sub_runs_in_run:
  "list_all is_sep run \<Longrightarrow> sub_runs True (run @ rest) = sub_runs True rest"
  by (induction run) auto

lemma sub_runs_run:
  "list_all is_sep run \<Longrightarrow> run \<noteq> [] \<Longrightarrow> sub_runs False (run @ rest) = CHR ''_'' # sub_runs True rest"
  by (cases run) (auto simp: sub_runs_in_run)

lemma sub_runs_collapse:
  assumes "list_all (\<lambda>c. \<not> is_sep c) x" "x \<noteq> []" "list_all is_sep run" "run \<noteq> []"
    "list_all (\<lambda>c. \<not> is_sep c) y" "y \<noteq> []"
  shows "sub_runs False (x @ run @ y) = x @ ''_'' @ y"
proof -
  have "sub_runs True (y @ []) = y @ sub_runs False []"
    using assms(5,6) by (rule sub_runs_words)
  then have "sub_runs True y = y" by simp
  with assms show ?thesis by (simp add: sub_runs_words sub_runs_run)
qed

lemma str_strip_id:
  "xs \<noteq> [] \<Longrightarrow> \<not> is_space (hd xs) \<Longrightarrow> \<not> is_space (last xs) \<Longrightarrow> str_strip xs = xs"
proof -
  assume a: "xs \<noteq> []" "\<not> is_space (hd xs)" "\<not> is_space (last xs)"
  then have "dropWhile is_space xs = xs" by (cases xs) auto
  moreover from a have "dropWhile is_space (rev xs) = rev xs"
    by (cases "rev xs") (auto simp: last_rev [symmetric] hd_rev simp del: last_rev)
  ultimately show ?thesis by (simp add: str_strip_def)
qed


lemma slugify_ascii_part:
  "ascii_ignore (nfkd text) = ascii_ignore (nfkd' text') \<Longrightarrow> slugify nfkd text = slugify nfkd' text'"
  by (simp add: slugify_def)

lemma slugify_collapse:
  assumes x: "list_all is_word x" "x \<noteq> []" and r: "list_all is_sep run" "run \<noteq> []"
    and y: "list_all is_word y" "y \<noteq> []" and n: "nfkd (x @ run @ y) = x @ run @ y"
  shows "slugify nfkd (x @ run @ y) = str_lower x @ ''_'' @ str_lower y"
proof -
  let ?t = "x @ run @ y"
  have a: "ascii_ignore ?t = ?t"
    using x(1) r(1) y(1)
    by (auto simp: ascii_ignore_def list_all_iff word_ascii sep_ascii intro!: filter_True)
  have d: "drop_other ?t = ?t"
    using x(1) r(1) y(1)
    by (auto simp: drop_other_def list_all_iff is_sep_def intro!: filter_True)
  have "is_word (hd ?t)" using x by (cases x) auto
  then have h: "\<not> is_space (hd ?t)" using word_not_sep by (auto simp: is_sep_def)
  have "is_word (last ?t)" using y by (auto simp: list_all_iff)
  then have l: "\<not> is_space (last ?t)" using word_not_sep by (auto simp: is_sep_def)
  have s: "str_strip ?t = ?t" using x(2) h l by (intro str_strip_id) auto
  have m: "map lower_char run = run"
    using r(1) by (auto simp: list_all_iff lower_char_sep intro!: map_idI)
  have lx: "list_all (\<lambda>c. \<not> is_sep c) (str_lower x)"
    using x(1) by (auto simp: list_all_iff str_lower_def lower_char_word slug_char_not_sep)
  have ly: "list_all (\<lambda>c. \<not> is_sep c) (str_lower y)"
    using y(1) by (auto simp: list_all_iff str_lower_def lower_char_word slug_char_not_sep)
  have nx: "str_lower x \<noteq> []" and ny: "str_lower y \<noteq> []"
    using x(2) y(2) by (simp_all add: str_lower_def)
  have "slugify nfkd ?t = sub_runs False (str_lower ?t)"
    by (simp add: slugify_def n a d s del: append_assoc)
  also have "str_lower ?t = str_lower x @ run @ str_lower y"
    by (simp add: str_lower_def m)
  also have "sub_runs False (str_lower x @ run @ str_lower y) = str_lower x @ ''_'' @ str_lower y"
    using lx nx r ly ny by (rule sub_runs_collapse)
  finally show ?thesis .
qed

text \<open>
  Tokens: the second substitution renders an alternating sequence of words and runs token
  by token, and every text of word characters and separators is such a sequence. Leading
  and trailing whitespace is stripped, and only the kept characters of the normal form
  count.
\<close>

lemma str_lower_append: "str_lower (xs @ ys) = str_lower xs @ str_lower ys"
  by (simp add: str_lower_def)

lemma str_lower_sep: "list_all is_sep r \<Longrightarrow> str_lower r = r"
  by (auto simp: str_lower_def list_all_iff lower_char_sep intro!: map_idI)

lemma str_lower_word: "list_all is_word w \<Longrightarrow> list_all (\<lambda>c. \<not> is_sep c) (str_lower w)"
  by (auto simp: list_all_iff str_lower_def lower_char_word slug_char_not_sep)

lemma sub_runs_state: "xs \<noteq> [] \<Longrightarrow> \<not> is_sep (hd xs) \<Longrightarrow> sub_runs True xs = sub_runs False xs"
  by (cases xs) auto

lemma sub_runs_word_first:
  assumes "w \<noteq> []" "list_all is_word w"
  shows "sub_runs b (str_lower w @ rest) = str_lower w @ sub_runs False rest"
proof -
  from assms(1) have "str_lower w \<noteq> []" by (simp add: str_lower_def)
  with str_lower_word [OF assms(2)] show ?thesis by (rule sub_runs_words)
qed

lemma sub_runs_tokens:
  "alternating ts \<Longrightarrow> sub_runs False (str_lower (flatten ts)) = concat (map render ts)"
proof (induction ts rule: alternating.induct)
  case 1
  then show ?case by (simp add: str_lower_def)
next
  case (2 w)
  then have "sub_runs False (str_lower w @ []) = str_lower w @ sub_runs False []"
    by (intro sub_runs_word_first) simp_all
  then show ?case by simp
next
  case (3 r)
  then have "sub_runs False (r @ []) = CHR ''_'' # sub_runs True []"
    by (intro sub_runs_run) simp_all
  with 3 show ?case by (simp add: str_lower_sep)
next
  case (4 w r ts)
  then have w: "w \<noteq> []" "list_all is_word w" and a: "alternating (Run r # ts)" by simp_all
  from sub_runs_word_first [OF w] 4(1) [OF a] show ?case
    by (simp add: str_lower_append)
next
  case (5 r w ts)
  then have r: "list_all is_sep r" "r \<noteq> []" and a: "alternating (Word w # ts)" by simp_all
  from a have w: "w \<noteq> []" "list_all is_word w" by (cases ts rule: alternating.cases; simp)+
  let ?rest = "str_lower (flatten (Word w # ts))"
  have "?rest = str_lower w @ str_lower (flatten ts)" by (simp add: str_lower_append)
  with sub_runs_word_first [OF w] have s: "sub_runs True ?rest = sub_runs False ?rest" by simp
  from sub_runs_run [OF r, of ?rest] s 5(1) [OF a] r(1) show ?case
    by (simp add: str_lower_append str_lower_sep)
next
  case (6 w w' ts)
  then show ?case by simp
next
  case (7 r r' ts)
  then show ?case by simp
qed

lemma alternating_chars: "alternating ts \<Longrightarrow> list_all (\<lambda>c. is_word c \<or> is_sep c) (flatten ts)"
  by (induction ts rule: alternating.induct) (auto simp: list_all_iff)


lemma tokens_exist:
  "list_all (\<lambda>c. is_word c \<or> is_sep c) t \<Longrightarrow> \<exists>ts. alternating ts \<and> flatten ts = t"
proof (induction t)
  case Nil
  have "alternating [] \<and> flatten [] = []" by simp
  then show ?case by blast
next
  case (Cons c t)
  then obtain ts where ts: "alternating ts" "flatten ts = t" by auto
  from Cons.prems have c: "is_word c \<or> is_sep c" by simp
  show ?case
  proof (cases "is_word c")
    case True
    show ?thesis
    proof (cases ts rule: alternating.cases)
      case 1
      with ts True have "alternating [Word [c]] \<and> flatten [Word [c]] = c # t" by simp
      then show ?thesis by blast
    next
      case (2 w)
      with ts True have "alternating [Word (c # w)] \<and> flatten [Word (c # w)] = c # t" by auto
      then show ?thesis by blast
    next
      case (3 r)
      with ts True have "alternating [Word [c], Run r] \<and> flatten [Word [c], Run r] = c # t" by auto
      then show ?thesis by blast
    next
      case (4 w r rest)
      with ts True have "alternating (Word (c # w) # Run r # rest) \<and> flatten (Word (c # w) # Run r # rest) = c # t"
        by auto
      then show ?thesis by blast
    next
      case (5 r w rest)
      with ts True have "alternating (Word [c] # Run r # Word w # rest) \<and>
                         flatten (Word [c] # Run r # Word w # rest) = c # t"
        by auto
      then show ?thesis by blast
    next
      case (6 w w' rest)
      with ts show ?thesis by simp
    next
      case (7 r r' rest)
      with ts show ?thesis by simp
    qed
  next
    case False
    with c have s: "is_sep c" by simp
    show ?thesis
    proof (cases ts rule: alternating.cases)
      case 1
      with ts s have "alternating [Run [c]] \<and> flatten [Run [c]] = c # t" by simp
      then show ?thesis by blast
    next
      case (2 w)
      with ts s have "alternating [Run [c], Word w] \<and> flatten [Run [c], Word w] = c # t" by auto
      then show ?thesis by blast
    next
      case (3 r)
      with ts s have "alternating [Run (c # r)] \<and> flatten [Run (c # r)] = c # t" by auto
      then show ?thesis by blast
    next
      case (4 w r rest)
      with ts s have "alternating (Run [c] # Word w # Run r # rest) \<and>
                      flatten (Run [c] # Word w # Run r # rest) = c # t"
        by auto
      then show ?thesis by blast
    next
      case (5 r w rest)
      with ts s have "alternating (Run (c # r) # Word w # rest) \<and> flatten (Run (c # r) # Word w # rest) = c # t"
        by auto
      then show ?thesis by blast
    next
      case (6 w w' rest)
      with ts show ?thesis by simp
    next
      case (7 r r' rest)
      with ts show ?thesis by simp
    qed
  qed
qed

lemma str_strip_left: "list_all is_space l \<Longrightarrow> str_strip (l @ x) = str_strip x"
proof -
  assume "list_all is_space l"
  then have "\<And>c. c \<in> set l \<Longrightarrow> is_space c" by (simp add: list_all_iff)
  then have "dropWhile is_space (l @ x) = dropWhile is_space x" by (rule dropWhile_append2)
  then show ?thesis by (simp add: str_strip_def)
qed

lemma str_strip_right: "list_all is_space r \<Longrightarrow> str_strip (x @ r) = str_strip x"
proof -
  assume r: "list_all is_space r"
  then have rr: "\<And>c. c \<in> set (rev r) \<Longrightarrow> is_space c" by (simp add: list_all_iff)
  show ?thesis
  proof (cases "list_all is_space x")
    case True
    with r have a: "dropWhile is_space (x @ r) = []" and b: "dropWhile is_space x = []"
      by (simp_all add: dropWhile_eq_Nil_conv list_all_iff)
    show ?thesis unfolding str_strip_def a b ..
  next
    case False
    then obtain c where "c \<in> set x" "\<not> is_space c" by (auto simp: list_all_iff)
    then have "dropWhile is_space (x @ r) = dropWhile is_space x @ r" by (rule dropWhile_append1)
    moreover have "dropWhile is_space (rev r @ rev (dropWhile is_space x))
                   = dropWhile is_space (rev (dropWhile is_space x))"
      using rr by (rule dropWhile_append2)
    ultimately show ?thesis by (simp add: str_strip_def)
  qed
qed

lemma space_kept: "is_space c \<Longrightarrow> kept_char c"
  by (auto simp: kept_char_def is_space_def is_ascii_def)

lemma clean_filter: "drop_other (ascii_ignore t) = filter kept_char t"
  by (induction t) (auto simp: drop_other_def ascii_ignore_def kept_char_def)

lemma slugify_clean:
  "slugify nfkd text = sub_runs False (str_lower (str_strip (filter kept_char (nfkd text))))"
  using clean_filter [of "nfkd text"] by (simp add: slugify_def)

lemma slugify_kept:
  "slugify nfkd text = slugify (\<lambda>t. t) (filter kept_char (nfkd text))"
  by (simp add: slugify_clean)

lemma slugify_strip:
  assumes "list_all is_space l" "list_all is_space r"
  shows "slugify (\<lambda>t. t) (l @ t @ r) = slugify (\<lambda>t. t) t"
proof -
  have l: "filter kept_char l = l" and r: "filter kept_char r = r"
    using assms by (auto simp: list_all_iff space_kept intro!: filter_True)
  have "str_strip (l @ filter kept_char t @ r) = str_strip (filter kept_char t)"
    using str_strip_left [OF assms(1), of "filter kept_char t @ r"]
          str_strip_right [OF assms(2), of "filter kept_char t"] by simp
  then show ?thesis by (simp add: slugify_clean l r)
qed

lemma slugify_tokens:
  assumes a: "alternating ts"
    and e: "flatten ts = [] \<or> (\<not> is_space (hd (flatten ts)) \<and> \<not> is_space (last (flatten ts)))"
    and n: "nfkd (flatten ts) = flatten ts"
  shows "slugify nfkd (flatten ts) = concat (map render ts)"
proof -
  let ?t = "flatten ts"
  from alternating_chars [OF a] have c: "list_all (\<lambda>c. is_word c \<or> is_sep c) ?t" .
  have k: "filter kept_char ?t = ?t"
    using c by (auto simp: list_all_iff kept_char_def is_sep_def word_ascii sep_ascii intro!: filter_True)
  have s: "str_strip ?t = ?t"
  proof (cases "?t = []")
    case True
    then show ?thesis by (simp add: str_strip_def)
  next
    case False
    with e show ?thesis by (intro str_strip_id) auto
  qed
  have "slugify nfkd ?t = sub_runs False (str_lower ?t)"
    by (simp add: slugify_clean n k s)
  also have "\<dots> = concat (map render ts)"
    using a by (rule sub_runs_tokens)
  finally show ?thesis .
qed


text \<open>
  C8. \<open>slugify\<close> normalizes (\<open>nfkd\<close>), keeps only the ASCII part of the normal form (so a
  combining mark split off a letter is dropped, and two texts whose normal forms agree on
  ASCII have one slug), deletes what is not a word character, whitespace or a hyphen,
  strips whitespace at both ends, lowers the case and replaces every run of whitespace and
  hyphens by one underscore. So: a slug holds lower-case letters, digits and underscores
  only; the slug of a text is the slug of the kept characters of its normal form;
  whitespace around a text does not change its slug; a text that is a sequence of words
  and separator runs in turn (every text of kept characters is one) has the slug made of
  its words in lower case and one underscore for each run; lowering maps the capital
  letters to the small ones and leaves every other character; and the well name
  \<open>Acracia # 1\<close> (its own normal form) becomes \<open>acracia_1\<close>.
\<close>

lemma str_lower_alphabet:
  "str_lower ''ABCDEFGHIJKLMNOPQRSTUVWXYZ'' = ''abcdefghijklmnopqrstuvwxyz''"
  by code_simp

lemma str_lower_other: "list_all (\<lambda>c. \<not> is_upper c) w \<Longrightarrow> str_lower w = w"
  by (auto simp: str_lower_def lower_char_def list_all_iff intro!: map_idI)

theorem slugify_transform:
  "(\<forall>c \<in> set (slugify nfkd text). is_slug_char c) \<and>
   (ascii_ignore (nfkd text) = ascii_ignore (nfkd text') \<longrightarrow> slugify nfkd text = slugify nfkd text') \<and>
   slugify nfkd text = slugify (\<lambda>t. t) (filter kept_char (nfkd text)) \<and>
   (list_all is_space l \<and> list_all is_space r \<longrightarrow>
      slugify (\<lambda>t. t) (l @ t @ r) = slugify (\<lambda>t. t) t) \<and>
   (alternating ts \<and>
    (flatten ts = [] \<or> \<not> is_space (hd (flatten ts)) \<and> \<not> is_space (last (flatten ts))) \<and>
    nfkd (flatten ts) = flatten ts \<longrightarrow>
      slugify nfkd (flatten ts) = concat (map render ts)) \<and>
   (list_all (\<lambda>c. is_word c \<or> is_sep c) u \<longrightarrow> (\<exists>us. alternating us \<and> flatten us = u)) \<and>
   (list_all is_word x \<and> x \<noteq> [] \<and> list_all is_sep run \<and> run \<noteq> [] \<and> list_all is_word y \<and> y \<noteq> [] \<and>
    nfkd (x @ run @ y) = x @ run @ y \<longrightarrow>
      slugify nfkd (x @ run @ y) = str_lower x @ ''_'' @ str_lower y) \<and>
   (nfkd ''Acracia # 1'' = ''Acracia # 1'' \<longrightarrow> slugify nfkd ''Acracia # 1'' = ''acracia_1'') \<and>
   str_lower ''ABCDEFGHIJKLMNOPQRSTUVWXYZ'' = ''abcdefghijklmnopqrstuvwxyz'' \<and>
   (list_all (\<lambda>c. \<not> is_upper c) w \<longrightarrow> str_lower w = w)"
proof (intro conjI ballI impI)
  fix c assume "c \<in> set (slugify nfkd text)"
  then show "is_slug_char c" by (rule slugify_chars)
next
  assume "ascii_ignore (nfkd text) = ascii_ignore (nfkd text')"
  then show "slugify nfkd text = slugify nfkd text'" by (rule slugify_ascii_part)
next
  show "slugify nfkd text = slugify (\<lambda>t. t) (filter kept_char (nfkd text))"
    by (rule slugify_kept)
next
  assume "list_all is_space l \<and> list_all is_space r"
  then show "slugify (\<lambda>t. t) (l @ t @ r) = slugify (\<lambda>t. t) t"
    using slugify_strip by blast
next
  assume "alternating ts \<and>
    (flatten ts = [] \<or> \<not> is_space (hd (flatten ts)) \<and> \<not> is_space (last (flatten ts))) \<and>
    nfkd (flatten ts) = flatten ts"
  then show "slugify nfkd (flatten ts) = concat (map render ts)"
    using slugify_tokens by blast
next
  assume "list_all (\<lambda>c. is_word c \<or> is_sep c) u"
  then show "\<exists>us. alternating us \<and> flatten us = u" by (rule tokens_exist)
next
  assume "list_all is_word x \<and> x \<noteq> [] \<and> list_all is_sep run \<and> run \<noteq> [] \<and> list_all is_word y \<and> y \<noteq> [] \<and>
    nfkd (x @ run @ y) = x @ run @ y"
  then show "slugify nfkd (x @ run @ y) = str_lower x @ ''_'' @ str_lower y"
    using slugify_collapse by blast
next
  assume "nfkd ''Acracia # 1'' = ''Acracia # 1''"
  then have "slugify nfkd ''Acracia # 1'' = slugify (\<lambda>t. t) ''Acracia # 1''"
    by (simp add: slugify_via_nfkd [of nfkd])
  then show "slugify nfkd ''Acracia # 1'' = ''acracia_1''"
    by (simp only: slugify_acracia)
next
  show "str_lower ''ABCDEFGHIJKLMNOPQRSTUVWXYZ'' = ''abcdefghijklmnopqrstuvwxyz''"
    by (rule str_lower_alphabet)
next
  assume "list_all (\<lambda>c. \<not> is_upper c) w"
  then show "str_lower w = w" by (rule str_lower_other)
qed


lemma witness_words:
  "list_all is_word ''Ab''" "list_all is_sep '' - ''" "list_all is_word ''c''"
  "str_lower ''Ab'' = ''ab''" "str_lower ''c'' = ''c''"
  by code_simp+

lemma witness_accent:
  "ascii_ignore [CHR ''e'', CHR 0xCC, CHR 0x81] = ''e''" "ascii_ignore ''e'' = ''e''"
  "slugify (\<lambda>t. t) ''e'' = ''e''"
  by code_simp+

lemma witness_abc:
  "alternating [Word ''a'', Run '' '', Word ''b'', Run '' '', Word ''c'']"
  "flatten [Word ''a'', Run '' '', Word ''b'', Run '' '', Word ''c''] = ''a b c''"
  "concat (map render [Word ''a'', Run '' '', Word ''b'', Run '' '', Word ''c'']) = ''a_b_c''"
  "\<not> is_space (hd ''a b c'')" "\<not> is_space (last ''a b c'')"
  "list_all is_space ''  ''" "list_all is_space '' ''"
  by code_simp+

lemma witness_well:
  "alternating [Word ''North'', Run '' '', Word ''Sea'', Run '' - '', Word ''Well'', Run '' '', Word ''12'']"
  "flatten [Word ''North'', Run '' '', Word ''Sea'', Run '' - '', Word ''Well'', Run '' '', Word ''12'']
     = ''North Sea - Well 12''"
  "concat (map render [Word ''North'', Run '' '', Word ''Sea'', Run '' - '', Word ''Well'', Run '' '', Word ''12''])
     = ''north_sea_well_12''"
  "\<not> is_space (hd ''North Sea - Well 12'')" "\<not> is_space (last ''North Sea - Well 12'')"
  by code_simp+

theorem slugify_transform_witness:
  "slugify (\<lambda>t. t) ''Acracia # 1'' = ''acracia_1'' \<and>
   slugify (\<lambda>t. t) ''Ab - c'' = ''ab_c'' \<and>
   slugify (\<lambda>t. t) ''a b c'' = ''a_b_c'' \<and>
   slugify (\<lambda>t. t) ''North Sea - Well 12'' = ''north_sea_well_12'' \<and>
   slugify (\<lambda>t. t) ''  a b c '' = ''a_b_c'' \<and>
   slugify (\<lambda>t. if t = [CHR 0xC3, CHR 0xA9] then [CHR ''e'', CHR 0xCC, CHR 0x81] else t) [CHR 0xC3, CHR 0xA9] = ''e''"
proof -
  let ?abc = "[Word ''a'', Run '' '', Word ''b'', Run '' '', Word ''c'']"
  let ?nsw = "[Word ''North'', Run '' '', Word ''Sea'', Run '' - '', Word ''Well'', Run '' '', Word ''12'']"
  let ?n = "\<lambda>t. if t = [CHR 0xC3, CHR 0xA9] then [CHR ''e'', CHR 0xCC, CHR 0x81] else t"
  note t1 = slugify_transform [of "\<lambda>t. t" "''Acracia # 1''" "''Acracia # 1''" "''  ''" "'' ''" "''a b c''"
              ?abc "''a b c''" "''Ab''" "'' - ''" "''c''"]
  note t3 = slugify_transform [of "\<lambda>t. t" "''Acracia # 1''" "''Acracia # 1''" "''  ''" "'' ''" "''a b c''"
              ?nsw "''a b c''" "''Ab''" "'' - ''" "''c''"]
  note t2 = slugify_transform [of ?n "[CHR 0xC3, CHR 0xA9]" "''e''" "''  ''" "'' ''" "''a b c''"
              ?abc "''a b c''" "''Ab''" "'' - ''" "''c''"]
  note scenario = t1 [THEN conjunct2, THEN conjunct2, THEN conjunct2, THEN conjunct2, THEN conjunct2,
                      THEN conjunct2, THEN conjunct2, THEN conjunct1]
  note joined = t1 [THEN conjunct2, THEN conjunct2, THEN conjunct2, THEN conjunct2, THEN conjunct2,
                    THEN conjunct2, THEN conjunct1]
  note tokens_abc = t1 [THEN conjunct2, THEN conjunct2, THEN conjunct2, THEN conjunct2, THEN conjunct1]
  note tokens_nsw = t3 [THEN conjunct2, THEN conjunct2, THEN conjunct2, THEN conjunct2, THEN conjunct1]
  note stripped = t1 [THEN conjunct2, THEN conjunct2, THEN conjunct2, THEN conjunct1]
  note ascii_part = t2 [THEN conjunct2, THEN conjunct1]
  have 1: "slugify (\<lambda>t. t) ''Acracia # 1'' = ''acracia_1''"
    by (rule scenario [THEN mp]) (rule refl)
  note w = witness_words(1-3) and lw = witness_words(4-5)
  note ai = witness_accent(1-2) and se = witness_accent(3)
  have "slugify (\<lambda>t. t) (''Ab'' @ '' - '' @ ''c'') = str_lower ''Ab'' @ ''_'' @ str_lower ''c''"
    by (rule joined [THEN mp]) (simp only: w simp_thms, simp)
  then have 2: "slugify (\<lambda>t. t) ''Ab - c'' = ''ab_c''" unfolding lw by simp
  note a = witness_abc(1) and fa = witness_abc(2) and ra = witness_abc(3)
    and ea = witness_abc(4-5) and sp = witness_abc(6-7)
  note n = witness_well(1) and fn = witness_well(2) and rn = witness_well(3)
    and en = witness_well(4-5)
  have "slugify (\<lambda>t. t) (flatten ?abc) = concat (map render ?abc)"
    by (rule tokens_abc [THEN mp]) (simp only: a fa ea simp_thms)
  then have 3: "slugify (\<lambda>t. t) ''a b c'' = ''a_b_c''" unfolding fa ra .
  have "slugify (\<lambda>t. t) (flatten ?nsw) = concat (map render ?nsw)"
    by (rule tokens_nsw [THEN mp]) (simp only: n fn en simp_thms)
  then have 4: "slugify (\<lambda>t. t) ''North Sea - Well 12'' = ''north_sea_well_12''" unfolding fn rn .
  have "slugify (\<lambda>t. t) (''  '' @ ''a b c'' @ '' '') = slugify (\<lambda>t. t) ''a b c''"
    by (rule stripped [THEN mp]) (simp only: sp simp_thms)
  then have 5: "slugify (\<lambda>t. t) ''  a b c '' = ''a_b_c''" unfolding 3 by simp
  have "slugify ?n [CHR 0xC3, CHR 0xA9] = slugify ?n ''e''"
    by (rule ascii_part [THEN mp]) (simp add: ai)
  also have "\<dots> = slugify (\<lambda>t. t) ''e''" by (simp add: slugify_def)
  also have "\<dots> = ''e''" by (rule se)
  finally have 6: "slugify ?n [CHR 0xC3, CHR 0xA9] = ''e''" .
  from 1 2 3 4 5 6 show ?thesis by (intro conjI)
qed


section \<open>Properties of the Image Registry\<close>

text \<open>
  Joining a name to a directory and taking the base name gives the name back; the pattern
  the registry globs splits into the directory part and \<open>*\<close>; a dict of pairs with
  distinct keys is the list of pairs.
\<close>

lemma split_at_last_sep:
  assumes "CHR ''/'' \<notin> set b" and "a = [] \<or> last a = CHR ''/''"
  shows "upto_last_sep (a @ b) = a \<and> after_last_sep (a @ b) = b"
proof -
  have p: "\<And>c. c \<in> set (rev b) \<Longrightarrow> c \<noteq> CHR ''/''" using assms(1) by auto
  have "rev a = [] \<or> hd (rev a) = CHR ''/''" using assms(2) by (auto simp: hd_rev)
  then have t: "takeWhile (\<lambda>c. c \<noteq> CHR ''/'') (rev a) = []" and d: "dropWhile (\<lambda>c. c \<noteq> CHR ''/'') (rev a) = rev a"
    by (cases "rev a"; auto)+
  have "takeWhile (\<lambda>c. c \<noteq> CHR ''/'') (rev b @ rev a) = rev b @ takeWhile (\<lambda>c. c \<noteq> CHR ''/'') (rev a)"
    using p by (rule takeWhile_append2)
  moreover have "dropWhile (\<lambda>c. c \<noteq> CHR ''/'') (rev b @ rev a) = dropWhile (\<lambda>c. c \<noteq> CHR ''/'') (rev a)"
    using p by (rule dropWhile_append2)
  ultimately show ?thesis
    by (simp add: upto_last_sep_def after_last_sep_def t d)
qed

lemma join_cases:
  "CHR ''/'' \<notin> set b \<Longrightarrow>
   \<exists>a'. os_path_join a b = a' @ b \<and> (a' = [] \<or> last a' = CHR ''/'') \<and> (a' = a \<or> a' = a @ ''/'')"
  by (cases b) (auto simp: os_path_join_def)

lemma basename_join:
  assumes "CHR ''/'' \<notin> set b"
  shows "os_path_basename (os_path_join a b) = b"
proof -
  from join_cases [OF assms, of a] obtain a' where
    j: "os_path_join a b = a' @ b" and l: "a' = [] \<or> last a' = CHR ''/''" by blast
  from split_at_last_sep [OF assms l] j show ?thesis
    by (simp add: os_path_basename_def)
qed

lemma star_no_sep: "CHR ''/'' \<notin> set ''*''"
  by simp

lemma split_join_star:
  "snd (os_path_split (os_path_join folder ''*'')) = ''*''"
proof -
  from join_cases [OF star_no_sep, of folder] obtain a' where
    j: "os_path_join folder ''*'' = a' @ ''*''" and l: "a' = [] \<or> last a' = CHR ''/''" by blast
  from split_at_last_sep [OF star_no_sep l] j show ?thesis
    by (simp add: os_path_split_def Let_def)
qed

lemma dirname_of_chars:
  "c \<in> set (dirname_of folder) \<Longrightarrow> c \<in> set folder \<or> c = CHR ''/''"
proof -
  assume c: "c \<in> set (dirname_of folder)"
  from join_cases [OF star_no_sep, of folder] obtain a' where
    j: "os_path_join folder ''*'' = a' @ ''*''" and l: "a' = [] \<or> last a' = CHR ''/''"
    and a: "a' = folder \<or> a' = folder @ ''/''" by blast
  from split_at_last_sep [OF star_no_sep l] j
  have u: "upto_last_sep (os_path_join folder ''*'') = a'" by simp
  from c have "c \<in> set a'"
    by (auto simp: dirname_of_def os_path_split_def Let_def u split: if_splits dest: set_dropWhileD)
  with a show ?thesis by auto
qed

lemma dirname_of_no_magic: "\<not> has_magic folder \<Longrightarrow> \<not> has_magic (dirname_of folder)"
  using dirname_of_chars [of _ folder] by (auto simp: has_magic_def)

lemma glob_glob_star:
  assumes "\<not> has_magic folder"
  shows "glob_glob listdir (os_path_join folder ''*'')
   = Some (map (os_path_join (dirname_of folder)) (visible listdir folder))"
proof -
  obtain d b where s: "os_path_split (os_path_join folder ''*'') = (d, b)"
    by (cases "os_path_split (os_path_join folder ''*'')")
  with split_join_star [of folder] have b: "b = ''*''" by simp
  from s have d: "d = dirname_of folder" by (simp add: dirname_of_def)
  from dirname_of_no_magic [OF assms] d have "\<not> has_magic d" by simp
  with s b d show ?thesis
    by (simp add: glob_glob_def visible_def)
qed

lemma dict_set_new: "k \<notin> set (map fst d) \<Longrightarrow> dict_set d k v = d @ [(k, v)]"
  by (induction d k v rule: dict_set.induct) auto

lemma fold_dict_set_distinct:
  "distinct (map fst d0 @ map fst ps) \<Longrightarrow> fold (\<lambda>(k, v) d. dict_set d k v) ps d0 = d0 @ ps"
proof (induction ps arbitrary: d0)
  case Nil
  then show ?case by simp
next
  case (Cons p ps)
  obtain k v where p: "p = (k, v)" by (cases p)
  from Cons.prems p have n: "k \<notin> set (map fst d0)" by auto
  from Cons.prems p have "distinct (map fst (d0 @ [(k, v)]) @ map fst ps)" by auto
  from Cons.IH [OF this] n p show ?case by (simp add: dict_set_new)
qed

lemma dict_of_pairs_distinct: "distinct (map fst ps) \<Longrightarrow> dict_of_pairs ps = ps"
  using fold_dict_set_distinct [of "[]" ps] by (simp add: dict_of_pairs_def)

lemma official_component_dict_pairs:
  assumes m: "\<not> has_magic folder" and n: "listed_names (visible listdir folder)"
  shows "official_component_dict listdir folder
         = Some (dict_of_pairs (map (entry_of folder) (visible listdir folder)))"
proof -
  have e: "map (\<lambda>fp. (splitext_root (os_path_basename fp), fp))
          (map (os_path_join (dirname_of folder)) (visible listdir folder))
        = map (entry_of folder) (visible listdir folder)"
    using n by (auto simp: listed_names_def list_all_iff entry_of_def basename_join)
  show ?thesis
    unfolding official_component_dict_def glob_glob_star [OF m] option.case e ..
qed


lemma map_fst_entry_of: "map fst (map (entry_of folder) names) = map splitext_root names"
  by (simp add: entry_of_def)

text \<open>
  C9, as stated, fails: two files that differ in the extension only share a key and give
  one entry, and a file whose name starts with a dot is not matched by the pattern \<open>*\<close>
  and gives none.
\<close>

theorem official_component_dict_counterexample:
  "official_component_dict (\<lambda>d. if d = ''imgs'' then Some [''a.png'', ''a.jpg''] else None) ''imgs''
     = Some [(''a'', ''imgs/a.jpg'')] \<and>
   official_component_dict (\<lambda>d. if d = ''imgs'' then Some [''.b.png'', ''c.png''] else None) ''imgs''
     = Some [(''c'', ''imgs/c.png'')]"
  by code_simp

text \<open>
  C9, amended. For a folder name free of glob metacharacters, the registry returns a dict
  over the entries directly inside the folder whose names do not start with a dot (files
  and subdirectories alike, whatever their type, nothing from deeper levels): its keys
  are their names without the extension, in listing order, each once; a key's value is the
  joined path of the last listed entry with that key; when no two of these entries share a
  key, the dict has exactly one entry for each of them. A folder that cannot be listed
  gives the empty dict.
\<close>

theorem official_component_dict_entries:
  "\<not> has_magic DHD_folder \<and> listed_names (visible listdir DHD_folder) \<longrightarrow>
     (\<exists>d. official_component_dict listdir DHD_folder = Some d \<and>
          map fst d = first_occurrences (map splitext_root (visible listdir DHD_folder)) \<and>
          (\<forall>k. map_of d k = map_of (rev (map (entry_of DHD_folder) (visible listdir DHD_folder))) k) \<and>
          (distinct (map splitext_root (visible listdir DHD_folder)) \<longrightarrow>
             d = map (entry_of DHD_folder) (visible listdir DHD_folder))) \<and>
     (\<forall>names. listdir (if dirname_of DHD_folder = [] then ''.'' else dirname_of DHD_folder) = Some names \<longrightarrow>
        visible listdir DHD_folder = filter (\<lambda>n. \<not> ishidden n) names) \<and>
     (listdir (if dirname_of DHD_folder = [] then ''.'' else dirname_of DHD_folder) = None \<longrightarrow>
        official_component_dict listdir DHD_folder = Some [])"
proof (intro impI)
  assume a: "\<not> has_magic DHD_folder \<and> listed_names (visible listdir DHD_folder)"
  let ?ps = "map (entry_of DHD_folder) (visible listdir DHD_folder)"
  from a have o: "official_component_dict listdir DHD_folder = Some (dict_of_pairs ?ps)"
    by (simp add: official_component_dict_pairs)
  have k: "map fst (dict_of_pairs ?ps) = first_occurrences (map splitext_root (visible listdir DHD_folder))"
    by (simp only: dict_of_pairs_keys map_fst_entry_of)
  have l: "\<forall>k. map_of (dict_of_pairs ?ps) k = map_of (rev ?ps) k"
    by (simp add: dict_of_pairs_lookup)
  have d: "distinct (map splitext_root (visible listdir DHD_folder)) \<longrightarrow> dict_of_pairs ?ps = ?ps"
    using dict_of_pairs_distinct [of ?ps] by (simp only: map_fst_entry_of) blast
  have v: "\<forall>names. listdir (if dirname_of DHD_folder = [] then ''.'' else dirname_of DHD_folder) = Some names \<longrightarrow>
        visible listdir DHD_folder = filter (\<lambda>n. \<not> ishidden n) names"
    by (simp add: visible_def glob1_def)
  have e: "listdir (if dirname_of DHD_folder = [] then ''.'' else dirname_of DHD_folder) = None \<longrightarrow>
        official_component_dict listdir DHD_folder = Some []"
  proof
    assume "listdir (if dirname_of DHD_folder = [] then ''.'' else dirname_of DHD_folder) = None"
    then have "visible listdir DHD_folder = []" by (simp add: visible_def glob1_def)
    with o show "official_component_dict listdir DHD_folder = Some []"
      by (simp add: dict_of_pairs_def)
  qed
  from o k l d v e
  show "(\<exists>d. official_component_dict listdir DHD_folder = Some d \<and>
          map fst d = first_occurrences (map splitext_root (visible listdir DHD_folder)) \<and>
          (\<forall>k. map_of d k = map_of (rev ?ps) k) \<and>
          (distinct (map splitext_root (visible listdir DHD_folder)) \<longrightarrow> d = ?ps)) \<and>
     (\<forall>names. listdir (if dirname_of DHD_folder = [] then ''.'' else dirname_of DHD_folder) = Some names \<longrightarrow>
        visible listdir DHD_folder = filter (\<lambda>n. \<not> ishidden n) names) \<and>
     (listdir (if dirname_of DHD_folder = [] then ''.'' else dirname_of DHD_folder) = None \<longrightarrow>
        official_component_dict listdir DHD_folder = Some [])"
    by blast
qed

lemma registry_example:
  "\<not> has_magic ''imgs/'' \<and> dirname_of ''imgs/'' = ''imgs'' \<and>
   visible (\<lambda>d. if d = ''imgs'' then Some [''bit.png'', ''.keep'', ''packer.v2.png'', ''sub''] else None) ''imgs/''
     = [''bit.png'', ''packer.v2.png'', ''sub''] \<and>
   listed_names [''bit.png'', ''packer.v2.png'', ''sub''] \<and>
   map splitext_root [''bit.png'', ''packer.v2.png'', ''sub''] = [''bit'', ''packer.v2'', ''sub''] \<and>
   map (entry_of ''imgs/'') [''bit.png'', ''packer.v2.png'', ''sub'']
     = [(''bit'', ''imgs/bit.png''), (''packer.v2'', ''imgs/packer.v2.png''), (''sub'', ''imgs/sub'')]"
  by code_simp

theorem official_component_dict_entries_witness:
  "\<not> has_magic ''imgs/'' \<and>
   official_component_dict
     (\<lambda>d. if d = ''imgs'' then Some [''bit.png'', ''.keep'', ''packer.v2.png'', ''sub''] else None) ''imgs/''
   = Some [(''bit'', ''imgs/bit.png''), (''packer.v2'', ''imgs/packer.v2.png''), (''sub'', ''imgs/sub'')]"
proof -
  let ?ls = "\<lambda>d. if d = ''imgs'' then Some [''bit.png'', ''.keep'', ''packer.v2.png'', ''sub''] else None"
  note t = official_component_dict_entries [of "''imgs/''" ?ls]
  from registry_example have n: "\<not> has_magic ''imgs/''"
    and v: "visible ?ls ''imgs/'' = [''bit.png'', ''packer.v2.png'', ''sub'']"
    and ln: "listed_names [''bit.png'', ''packer.v2.png'', ''sub'']"
    and st: "map splitext_root [''bit.png'', ''packer.v2.png'', ''sub''] = [''bit'', ''packer.v2'', ''sub'']"
    and en: "map (entry_of ''imgs/'') [''bit.png'', ''packer.v2.png'', ''sub'']
     = [(''bit'', ''imgs/bit.png''), (''packer.v2'', ''imgs/packer.v2.png''), (''sub'', ''imgs/sub'')]"
    by blast+
  have di: "distinct (map splitext_root (visible ?ls ''imgs/''))"
    unfolding v st by simp
  from t n ln v obtain d where d: "official_component_dict ?ls ''imgs/'' = Some d"
    and dd: "distinct (map splitext_root (visible ?ls ''imgs/'')) \<longrightarrow>
             d = map (entry_of ''imgs/'') (visible ?ls ''imgs/'')"
    by auto
  from dd di have "d = map (entry_of ''imgs/'') (visible ?ls ''imgs/'')" by blast
  then have "d = [(''bit'', ''imgs/bit.png''), (''packer.v2'', ''imgs/packer.v2.png''), (''sub'', ''imgs/sub'')]"
    unfolding v en .
  with d n show ?thesis by blast
qed

section \<open>Properties of the Spreadsheet Filler\<close>










end
